theory Spec2Isabelle
  imports Complex_Main "HOL-Library.Word" "HOL-Library.Monad_Syntax"
begin

unbundle bit_operations_syntax

section \<open>Binary fuse filter for key-value maps: data model\<close>

text \<open>
  The embedding follows \<^verbatim>\<open>include/binary_fuse_filter/utils.hpp\<close> and
  \<^verbatim>\<open>include/binary_fuse_filter/filter_for_kv_map.hpp\<close>.  Fixed-width unsigned
  integers are machine words, so every \<open>+\<close>, \<open>-\<close> and \<open>*\<close> wraps as in C++.
  A \<^verbatim>\<open>std::vector\<close> is a list; an access outside the vector, a shift by the full
  width, a remainder by zero and a loop that never exits have no defined result in C++
  and are the value \<open>None\<close> of the functions below.  The byte image of an integer
  (\<^verbatim>\<open>memcpy\<close>, \<^verbatim>\<open>reinterpret_cast\<close>) is taken little-endian.
\<close>

type_synonym u8 = "8 word"
type_synonym u32 = "32 word"
type_synonym u64 = "64 word"
type_synonym u128 = "128 word"

text \<open>\<^verbatim>\<open>struct bff_key_t { std::array<uint64_t, 4> words; }\<close>\<close>

datatype bff_key_t = Key u64 u64 u64 u64

fun words :: "bff_key_t \<Rightarrow> u64 list" where
  "words (Key a b c d) = [a, b, c, d]"

text \<open>\<^verbatim>\<open>operator<=>\<close>: lexicographic three-way comparison of the word arrays;
  \<open>lex_less\<close> is its "less" outcome.\<close>

fun lex_less :: "u64 list \<Rightarrow> u64 list \<Rightarrow> bool" where
  "lex_less [] [] = False"
| "lex_less [] (y # ys) = True"
| "lex_less (x # xs) [] = False"
| "lex_less (x # xs) (y # ys) = (if x < y then True else if y < x then False else lex_less xs ys)"

definition key_less :: "bff_key_t \<Rightarrow> bff_key_t \<Rightarrow> bool" where
  "key_less a b = lex_less (words a) (words b)"

text \<open>\<^verbatim>\<open>std::set::insert\<close>: the key is inserted unless the set already holds an
  equivalent one (neither is less than the other).\<close>

definition set_insert :: "bff_key_t list \<Rightarrow> bff_key_t \<Rightarrow> bff_key_t list \<times> bool" where
  "set_insert s k =
     (if list_ex (\<lambda>x. \<not> key_less x k \<and> \<not> key_less k x) s then (s, False) else (k # s, True))"

fun distinct_loop :: "bff_key_t list \<Rightarrow> bff_key_t list \<Rightarrow> bool" where
  "distinct_loop s [] = True"
| "distinct_loop s (key # keys) =
     (case set_insert s key of (s', has_inserted) \<Rightarrow>
        if \<not> has_inserted then False else distinct_loop s' keys)"

definition are_all_keys_distinct :: "bff_key_t list \<Rightarrow> bool" where
  "are_all_keys_distinct keys = distinct_loop [] keys"

subsection \<open>Hash primitives\<close>

definition mod3 :: "u8 \<Rightarrow> u8" where
  "mod3 x = (if x > 2 then x - 3 else x)"

definition murmur64 :: "u64 \<Rightarrow> u64" where
  "murmur64 h0 =
     (let h1 = h0 XOR drop_bit 33 h0;
          h2 = h1 * 0xff51afd7ed558ccd;
          h3 = h2 XOR drop_bit 33 h2;
          h4 = h3 * 0xc4ceb9fe1a85ec53
      in h4 XOR drop_bit 33 h4)"

definition mix :: "u64 \<Rightarrow> u64 \<Rightarrow> u64" where
  "mix key sd = murmur64 (key + sd)"

text \<open>Little-endian byte image of a word and its inverse.\<close>

definition from_le_bytes :: "u8 list \<Rightarrow> 'a::len word" where
  "from_le_bytes bs = foldr (\<lambda>b acc. ucast b OR push_bit 8 acc) bs 0"

definition to_le_bytes :: "nat \<Rightarrow> 'a::len word \<Rightarrow> u8 list" where
  "to_le_bytes k w = map (\<lambda>i. ucast (drop_bit (8 * i) w)) [0..<k]"

definition seed_words :: "u8 list \<Rightarrow> u64 list" where
  "seed_words sd = map (\<lambda>i. from_le_bytes (take 8 (drop (8 * i) sd))) [0..<4]"

definition mix256_inner :: "u64 \<Rightarrow> u64 list \<Rightarrow> u64" where
  "mix256_inner kw sws = foldl (\<lambda>mixed_inner sw. murmur64 (mixed_inner + mix kw sw)) 0 sws"

definition mix256 :: "u64 list \<Rightarrow> u8 list \<Rightarrow> u64" where
  "mix256 key sd =
     foldl (\<lambda>mixed_outer kw. mixed_outer + mix256_inner kw (seed_words sd)) 0 key"

text \<open>\<^verbatim>\<open>mulhi\<close>, the branch taken when the compiler has a 128-bit integer.\<close>

definition mulhi :: "u64 \<Rightarrow> u64 \<Rightarrow> u64" where
  "mulhi a b = ucast (drop_bit 64 ((ucast a :: u128) * (ucast b :: u128)))"

text \<open>\<^verbatim>\<open>mulhi\<close>, the portable branch on 32-bit halves.\<close>

definition mulhi_portable :: "u64 \<Rightarrow> u64 \<Rightarrow> u64" where
  "mulhi_portable a b =
     (let a0 = ucast (ucast a :: u32) :: u64;
          a1 = drop_bit 32 a;
          b0 = ucast (ucast b :: u32) :: u64;
          b1 = drop_bit 32 b;
          p11 = a1 * b1;
          p01 = a0 * b1;
          p10 = a1 * b0;
          p00 = a0 * b0;
          middle = p10 + drop_bit 32 p00 + ucast (ucast p01 :: u32)
      in p11 + drop_bit 32 middle + drop_bit 32 p01)"

subsection \<open>Geometry\<close>

text \<open>
  The two helpers below compute in \<^verbatim>\<open>double\<close>.  They are embedded over the reals:
  \<^verbatim>\<open>log\<close> is \<open>ln\<close>, \<^verbatim>\<open>floor\<close> is \<open>\<lfloor>_\<rfloor>\<close> and \<^verbatim>\<open>round\<close> on a
  non-negative argument is \<open>round\<close>; rounding errors of the machine format are not
  modelled.  The conversion of a \<^verbatim>\<open>double\<close> to \<^verbatim>\<open>uint32_t\<close> truncates and is
  defined only when the truncated value fits; the shift \<^verbatim>\<open>1U << e\<close> is defined for
  \<open>e < 32\<close> only.
\<close>

definition double_to_u32 :: "real \<Rightarrow> u32 option" where
  "double_to_u32 x =
     (if - 1 < x \<and> x < 2 ^ 32 then Some (word_of_int (if x < 0 then 0 else \<lfloor>x\<rfloor>)) else None)"

definition shl1 :: "u32 \<Rightarrow> u32 option" where
  "shl1 e = (if e < 32 then Some (push_bit (unat e) 1) else None)"

definition calculate_segment_length :: "u32 \<Rightarrow> u32 \<Rightarrow> u32 option" where
  "calculate_segment_length ar sz =
     (if ar = 3 then
        do { e \<leftarrow> double_to_u32 (real_of_int \<lfloor>ln (real (unat sz)) / ln 3.33 + 2.25\<rfloor>); shl1 e }
      else if ar = 4 then
        do { e \<leftarrow> double_to_u32 (real_of_int \<lfloor>ln (real (unat sz)) / ln 2.91 - 0.5\<rfloor>); shl1 e }
      else Some 65536)"

definition calculate_size_factor :: "u32 \<Rightarrow> u32 \<Rightarrow> real" where
  "calculate_size_factor ar sz =
     (if ar = 3 then max 1.125 (0.875 + 0.25 * ln 1000000 / ln (real (unat sz)))
      else if ar = 4 then max 1.075 (0.77 + 0.305 * ln 600000 / ln (real (unat sz)))
      else 2)"

record bff_for_kv_map_t =
  seed :: "u8 list"
  num_keys_in_kv_map :: u32
  plaintext_modulo :: u64
  label :: u64
  segment_length :: u32
  segment_length_mask :: u32
  segment_count :: u32
  segment_count_length :: u32
  array_length :: u32
  fingerprints :: "u32 list"

definition arity :: u32 where
  "arity = 3"

text \<open>Lines 66 to 96 of the constructor: the fields after the geometry is fixed and the
  fingerprint table is allocated.\<close>

definition init_segment_count :: "u32 \<Rightarrow> u32 \<Rightarrow> u32" where
  "init_segment_count capacity sl = (capacity + sl - 1) div sl - (arity - 1)"

definition capacity_of :: "u32 \<Rightarrow> u32 option" where
  "capacity_of n =
     (let sizeFactor = (if n \<le> 1 then 0 else calculate_size_factor arity n)
      in if n \<le> 1 then Some 0
         else double_to_u32 (real_of_int (round (real (unat n) * sizeFactor))))"

definition init_filter :: "u8 list \<Rightarrow> u32 \<Rightarrow> u64 \<Rightarrow> u64 \<Rightarrow> bff_for_kv_map_t option" where
  "init_filter seed_bytes n p lbl =
     do {
       sl0 \<leftarrow> (if n = 0 then Some 4 else calculate_segment_length arity n);
       let sl = (if sl0 > 262144 then 262144 else sl0);
       let slm = sl - 1;
       capacity \<leftarrow> capacity_of n;
       let initSegmentCount = init_segment_count capacity sl;
       let al0 = (initSegmentCount + arity - 1) * sl;
       let sc0 = (al0 + sl - 1) div sl;
       let sc = (if sc0 \<le> arity - 1 then 1 else sc0 - (arity - 1));
       let al = (sc + arity - 1) * sl;
       let scl = sc * sl;
       Some \<lparr> seed = seed_bytes, num_keys_in_kv_map = n, plaintext_modulo = p,
              label = lbl, segment_length = sl, segment_length_mask = slm,
              segment_count = sc, segment_count_length = scl, array_length = al,
              fingerprints = replicate (unat al) 0 \<rparr>
     }"

subsection \<open>Hash triple and recovery\<close>

definition hash_batch :: "bff_for_kv_map_t \<Rightarrow> u64 \<Rightarrow> u32 \<times> u32 \<times> u32" where
  "hash_batch f hash =
     (let hi = mulhi hash (ucast (segment_count_length f));
          h0 = (ucast hi :: u32);
          h1 = h0 + segment_length f;
          h2 = h1 + segment_length f;
          h1' = h1 XOR ((ucast (drop_bit 18 hash) :: u32) AND segment_length_mask f);
          h2' = h2 XOR ((ucast hash :: u32) AND segment_length_mask f)
      in (h0, h1', h2'))"

text \<open>Checked vector read and write.\<close>

definition rd :: "'a list \<Rightarrow> nat \<Rightarrow> 'a option" where
  "rd xs i = (if i < length xs then Some (xs ! i) else None)"

definition wr :: "'a list \<Rightarrow> nat \<Rightarrow> 'a \<Rightarrow> 'a list option" where
  "wr xs i v = (if i < length xs then Some (xs[i := v]) else None)"

definition recover :: "bff_for_kv_map_t \<Rightarrow> bff_key_t \<Rightarrow> u32 option" where
  "recover f key =
     (let hash = mix256 (words key) (seed f) in
      case hash_batch f hash of (h0, h1, h2) \<Rightarrow>
        do {
          f0 \<leftarrow> rd (fingerprints f) (unat h0);
          f1 \<leftarrow> rd (fingerprints f) (unat h1);
          f2 \<leftarrow> rd (fingerprints f) (unat h2);
          let data = f0 + f1 + f2;
          if plaintext_modulo f = 0 then None
          else do {
            let mask = (ucast (mix hash (label f) mod plaintext_modulo f) :: u32);
            Some (ucast ((ucast (data + mask) :: u64) mod plaintext_modulo f))
          }
        })"


subsection \<open>Construction: working buffers\<close>

datatype error = LengthMismatch | DuplicateKeys | ModulusTooSmall | ConstructionFailed

record work =
  reverseOrder :: "u64 list"
  reverseH :: "u8 list"
  alone :: "u32 list"
  t2count :: "u8 list"
  t2hash :: "u64 list"
  startPos :: "u32 list"
  h012 :: "u32 list"
  hm_keys :: "u64 \<rightharpoonup> u32"

text \<open>A read-modify-write of one vector element, such as \<^verbatim>\<open>t2count[h0] += 4\<close>.\<close>

definition upd :: "'a list \<Rightarrow> nat \<Rightarrow> ('a \<Rightarrow> 'a) \<Rightarrow> 'a list option" where
  "upd xs i g = (if i < length xs then Some (xs[i := g (xs ! i)]) else None)"

text \<open>\<^verbatim>\<open>while ((1U << block_bits) < segment_count) block_bits++\<close>\<close>

function block_bits_loop :: "nat \<Rightarrow> u32 \<Rightarrow> nat option" where
  "block_bits_loop block_bits sc =
     (if 32 \<le> block_bits then None
      else if (push_bit block_bits 1 :: u32) < sc then block_bits_loop (block_bits + 1) sc
      else Some block_bits)"
  by pat_completeness auto
termination
  by (relation "measure (\<lambda>(block_bits, sc). 32 - block_bits)") auto

declare block_bits_loop.simps [simp del]

subsection \<open>Phase A: placement by leading bits\<close>

definition startPos_init :: "nat \<Rightarrow> u32 \<Rightarrow> u32 \<Rightarrow> u32 list" where
  "startPos_init block_bits n block_size =
     map (\<lambda>i. (ucast (drop_bit block_bits ((of_nat i :: u64) * (ucast n :: u64))) :: u32))
       [0..<unat block_size]"

text \<open>The probing loop has no bound in the source; a run that never finds an empty slot is
  \<open>None\<close>.\<close>

partial_function (option) probe :: "u64 list \<Rightarrow> u32 list \<Rightarrow> u64 \<Rightarrow> u64 \<Rightarrow> u64 option" where
  "probe ro sp maskblock segment_index =
     do {
       pos \<leftarrow> rd sp (unat segment_index);
       cur \<leftarrow> rd ro (unat pos);
       if cur \<noteq> 0 then probe ro sp maskblock ((segment_index + 1) AND maskblock)
       else Some segment_index
     }"

declare probe.simps [code]

definition place_key :: "u8 list \<Rightarrow> u64 \<Rightarrow> nat \<Rightarrow> work \<Rightarrow> bff_key_t \<times> u32 \<Rightarrow> work option" where
  "place_key seed_bytes maskblock block_bits w kv =
     (let hash = mix256 (words (fst kv)) seed_bytes in
      do {
        segment_index \<leftarrow>
          probe (reverseOrder w) (startPos w) maskblock (drop_bit (64 - block_bits) hash);
        pos \<leftarrow> rd (startPos w) (unat segment_index);
        ro \<leftarrow> wr (reverseOrder w) (unat pos) hash;
        sp \<leftarrow> wr (startPos w) (unat segment_index) (pos + 1);
        Some (w\<lparr>reverseOrder := ro, startPos := sp, hm_keys := (hm_keys w)(hash \<mapsto> snd kv)\<rparr>)
      })"

fun place_keys :: "u8 list \<Rightarrow> u64 \<Rightarrow> nat \<Rightarrow> work \<Rightarrow> (bff_key_t \<times> u32) list \<Rightarrow> work option" where
  "place_keys seed_bytes maskblock block_bits w [] = Some w"
| "place_keys seed_bytes maskblock block_bits w (kv # kvs) =
     do {
       w' \<leftarrow> place_key seed_bytes maskblock block_bits w kv;
       place_keys seed_bytes maskblock block_bits w' kvs
     }"

subsection \<open>Phase B: incidence accumulation\<close>

text \<open>One pass of the loop body at lines 143 to 159; the second component is the value
  assigned to \<^verbatim>\<open>error\<close> by this pass.\<close>

definition count_key :: "bff_for_kv_map_t \<Rightarrow> work \<Rightarrow> u64 \<Rightarrow> (work \<times> bool) option" where
  "count_key f w hash =
     (case hash_batch f hash of (h0, h1, h2) \<Rightarrow>
        do {
          tc \<leftarrow> upd (t2count w) (unat h0) (\<lambda>c. c + 4);
          th \<leftarrow> upd (t2hash w) (unat h0) (\<lambda>x. x XOR hash);
          tc \<leftarrow> upd tc (unat h1) (\<lambda>c. c + 4);
          tc \<leftarrow> upd tc (unat h1) (\<lambda>c. c XOR 1);
          th \<leftarrow> upd th (unat h1) (\<lambda>x. x XOR hash);
          tc \<leftarrow> upd tc (unat h2) (\<lambda>c. c + 4);
          th \<leftarrow> upd th (unat h2) (\<lambda>x. x XOR hash);
          tc \<leftarrow> upd tc (unat h2) (\<lambda>c. c XOR 2);
          c0 \<leftarrow> rd tc (unat h0);
          c1 \<leftarrow> rd tc (unat h1);
          c2 \<leftarrow> rd tc (unat h2);
          Some (w\<lparr>t2count := tc, t2hash := th\<rparr>, c0 < 4 \<or> c1 < 4 \<or> c2 < 4)
        })"

fun count_keys :: "bff_for_kv_map_t \<Rightarrow> work \<times> bool \<Rightarrow> u64 list \<Rightarrow> (work \<times> bool) option" where
  "count_keys f we [] = Some we"
| "count_keys f we (hash # hashes) =
     do {
       we' \<leftarrow> count_key f (fst we) hash;
       count_keys f we' hashes
     }"

text \<open>The three \<^verbatim>\<open>std::fill\<close> calls that reset an attempt; the last element of
  \<^verbatim>\<open>reverseOrder\<close> (the sentinel) is kept.\<close>

definition clear :: "work \<Rightarrow> work" where
  "clear w =
     w\<lparr>reverseOrder := replicate (length (reverseOrder w) - 1) 0
                          @ drop (length (reverseOrder w) - 1) (reverseOrder w),
       t2count := replicate (length (t2count w)) 0,
       t2hash := replicate (length (t2hash w)) 0\<rparr>"

subsection \<open>Phase C: peeling\<close>

definition scan_step :: "work \<times> u32 \<Rightarrow> nat \<Rightarrow> (work \<times> u32) option" where
  "scan_step wq i =
     do {
       al \<leftarrow> wr (alone (fst wq)) (unat (snd wq)) (of_nat i);
       c \<leftarrow> rd (t2count (fst wq)) i;
       Some ((fst wq)\<lparr>alone := al\<rparr>, snd wq + (if drop_bit 2 c = 1 then 1 else 0))
     }"

fun scan_loop :: "work \<times> u32 \<Rightarrow> nat list \<Rightarrow> (work \<times> u32) option" where
  "scan_loop wq [] = Some wq"
| "scan_loop wq (i # is) = do { wq' \<leftarrow> scan_step wq i; scan_loop wq' is }"

text \<open>One pass of \<^verbatim>\<open>while (Qsize > 0)\<close>, lines 177 to 210, on the buffers, the queue
  size and the stack size.\<close>

definition peel_step :: "bff_for_kv_map_t \<Rightarrow> work \<times> u32 \<times> u32 \<Rightarrow> (work \<times> u32 \<times> u32) option" where
  "peel_step f s =
     (case s of (w, Qsize0, stacksize) \<Rightarrow>
        let Qsize = Qsize0 - 1 in
        do {
          index \<leftarrow> rd (alone w) (unat Qsize);
          c \<leftarrow> rd (t2count w) (unat index);
          if drop_bit 2 c = 1 then
            do {
              hash \<leftarrow> rd (t2hash w) (unat index);
              let found = c AND 3;
              rh \<leftarrow> wr (reverseH w) (unat stacksize) found;
              ro \<leftarrow> wr (reverseOrder w) (unat stacksize) hash;
              case hash_batch f hash of (h0, h1, h2) \<Rightarrow>
                do {
                  h \<leftarrow> wr (h012 w) 1 h1;
                  h \<leftarrow> wr h 2 h2;
                  h \<leftarrow> wr h 3 h0;
                  h \<leftarrow> wr h 4 h1;
                  other_index1 \<leftarrow> rd h (unat found + 1);
                  al \<leftarrow> wr (alone w) (unat Qsize) other_index1;
                  c1 \<leftarrow> rd (t2count w) (unat other_index1);
                  let Qsize = Qsize + (if drop_bit 2 c1 = 2 then 1 else 0);
                  tc \<leftarrow> upd (t2count w) (unat other_index1) (\<lambda>c. c - 4);
                  tc \<leftarrow> upd tc (unat other_index1) (\<lambda>c. c XOR mod3 (found + 1));
                  th \<leftarrow> upd (t2hash w) (unat other_index1) (\<lambda>x. x XOR hash);
                  other_index2 \<leftarrow> rd h (unat found + 2);
                  al \<leftarrow> wr al (unat Qsize) other_index2;
                  c2 \<leftarrow> rd tc (unat other_index2);
                  let Qsize = Qsize + (if drop_bit 2 c2 = 2 then 1 else 0);
                  tc \<leftarrow> upd tc (unat other_index2) (\<lambda>c. c - 4);
                  tc \<leftarrow> upd tc (unat other_index2) (\<lambda>c. c XOR mod3 (found + 2));
                  th \<leftarrow> upd th (unat other_index2) (\<lambda>x. x XOR hash);
                  Some (w\<lparr>reverseOrder := ro, reverseH := rh, alone := al, t2count := tc,
                           t2hash := th, h012 := h\<rparr>, Qsize, stacksize + 1)
                }
            }
          else Some (w, Qsize, stacksize)
        })"


text \<open>\<^verbatim>\<open>while (Qsize > 0)\<close>: the source gives no bound, so the loop is a partial
  function and a run that never empties the queue is \<open>None\<close>.\<close>

partial_function (option) peel_loop ::
  "bff_for_kv_map_t \<Rightarrow> work \<times> u32 \<times> u32 \<Rightarrow> (work \<times> u32 \<times> u32) option" where
  "peel_loop f s =
     (if fst (snd s) > 0 then Option.bind (peel_step f s) (peel_loop f) else Some s)"

declare peel_loop.simps [code]

subsection \<open>One attempt and the retry loop\<close>

definition phase_A ::
  "bff_for_kv_map_t \<Rightarrow> (bff_key_t \<times> u32) list \<Rightarrow> nat \<Rightarrow> work \<Rightarrow> work option" where
  "phase_A f kvs block_bits w =
     (let n = num_keys_in_kv_map f;
          block_size = (push_bit block_bits 1 :: u32);
          w1 = w\<lparr>startPos := startPos_init block_bits n block_size\<rparr>;
          maskblock = (ucast (block_size - 1) :: u64)
      in place_keys (seed f) maskblock block_bits w1 (take (unat n) kvs))"

text \<open>\<^verbatim>\<open>bool error = 0\<close> and the loop over the stored hashes.\<close>

definition phase_B :: "bff_for_kv_map_t \<Rightarrow> work \<Rightarrow> (work \<times> bool) option" where
  "phase_B f w = count_keys f (w, False) (take (unat (num_keys_in_kv_map f)) (reverseOrder w))"

definition phase_C :: "bff_for_kv_map_t \<Rightarrow> work \<Rightarrow> (work \<times> u32 \<times> u32) option" where
  "phase_C f w =
     do {
       wq \<leftarrow> scan_loop (w, 0) [0..<unat (array_length f)];
       peel_loop f (fst wq, snd wq, 0)
     }"

datatype attempt_result = Restart work | Peeled work

definition attempt ::
  "bff_for_kv_map_t \<Rightarrow> (bff_key_t \<times> u32) list \<Rightarrow> nat \<Rightarrow> work \<Rightarrow> attempt_result option" where
  "attempt f kvs block_bits w =
     do {
       w \<leftarrow> phase_A f kvs block_bits w;
       we \<leftarrow> phase_B f w;
       if snd we then Some (Restart (clear (fst we)))
       else do {
         s \<leftarrow> phase_C f (fst we);
         if snd (snd s) = num_keys_in_kv_map f then Some (Peeled (fst s))
         else Some (Restart (clear (fst s)))
       }
     }"

definition BFF_FOR_KV_MAP_MAX_CREATE_ATTEMPT_COUNT :: nat where
  "BFF_FOR_KV_MAP_MAX_CREATE_ATTEMPT_COUNT = 100"

function retry_loop ::
  "bff_for_kv_map_t \<Rightarrow> (bff_key_t \<times> u32) list \<Rightarrow> nat \<Rightarrow> nat \<Rightarrow> work \<Rightarrow> (error + work) option" where
  "retry_loop f kvs block_bits loop w =
     (if loop + 1 > BFF_FOR_KV_MAP_MAX_CREATE_ATTEMPT_COUNT then Some (Inl ConstructionFailed)
      else case attempt f kvs block_bits w of
             None \<Rightarrow> None
           | Some (Restart w') \<Rightarrow> retry_loop f kvs block_bits (loop + 1) w'
           | Some (Peeled w') \<Rightarrow> Some (Inr w'))"
  by pat_completeness auto
termination
  by (relation "measure (\<lambda>(f, kvs, block_bits, loop, w).
        BFF_FOR_KV_MAP_MAX_CREATE_ATTEMPT_COUNT - loop)") auto

declare retry_loop.simps [simp del]

subsection \<open>Phase D: back-fill\<close>

text \<open>Lines 235 to 238: the value stored for one key, from its value and the two
  fingerprints already fixed.  The first difference is taken in 64 bits, the second in 32
  bits, each before its reduction modulo \<open>p\<close>.\<close>

definition backfill_value :: "u64 \<Rightarrow> u64 \<Rightarrow> u64 \<Rightarrow> u32 \<Rightarrow> u32 \<Rightarrow> u32 \<Rightarrow> u32" where
  "backfill_value p lbl hash value fa fb =
     (let entry = (ucast (((ucast value mod p) - ucast fa - ucast fb) mod p) :: u32);
          mask = (ucast (mix hash lbl mod p) :: u32)
      in ucast ((ucast (entry - mask) :: u64) mod p))"

definition backfill_step :: "work \<Rightarrow> bff_for_kv_map_t \<Rightarrow> u32 \<Rightarrow> bff_for_kv_map_t option" where
  "backfill_step w f i =
     do {
       hash \<leftarrow> rd (reverseOrder w) (unat i);
       let value = (case hm_keys w hash of None \<Rightarrow> 0 | Some v \<Rightarrow> v);
       case hash_batch f hash of (h0, h1, h2) \<Rightarrow>
         do {
           found \<leftarrow> rd (reverseH w) (unat i);
           let h = [h0, h1, h2, h0, h1];
           ia \<leftarrow> rd h (unat found + 1);
           ib \<leftarrow> rd h (unat found + 2);
           fa \<leftarrow> rd (fingerprints f) (unat ia);
           fb \<leftarrow> rd (fingerprints f) (unat ib);
           iv \<leftarrow> rd h (unat found);
           fps \<leftarrow> wr (fingerprints f) (unat iv)
                    (backfill_value (plaintext_modulo f) (label f) hash value fa fb);
           Some (f\<lparr>fingerprints := fps\<rparr>)
         }
     }"

text \<open>\<^verbatim>\<open>for (uint32_t i = n - 1; i < n; i--)\<close>: the index wraps below zero to leave the
  loop.\<close>

function backfill_loop :: "work \<Rightarrow> bff_for_kv_map_t \<Rightarrow> u32 \<Rightarrow> bff_for_kv_map_t option" where
  "backfill_loop w f i =
     (if i < num_keys_in_kv_map f then
        (case backfill_step w f i of None \<Rightarrow> None | Some f' \<Rightarrow> backfill_loop w f' (i - 1))
      else Some f)"
  by pat_completeness auto
termination
proof (relation "measure (\<lambda>(w, f, i). if i < num_keys_in_kv_map f then Suc (unat i) else 0)")
  show "wf (measure (\<lambda>(w::work, f::bff_for_kv_map_t, i::u32).
          if i < num_keys_in_kv_map f then Suc (unat i) else 0))"
    by simp
next
  fix w :: work and f f' :: bff_for_kv_map_t and i :: u32
  assume lt: "i < num_keys_in_kv_map f" and step: "backfill_step w f i = Some f'"
  have n: "num_keys_in_kv_map f' = num_keys_in_kv_map f"
    using step unfolding backfill_step_def Let_def
    by (auto simp: wr_def split: if_splits prod.splits Option.bind_splits)
  have "i - 1 < num_keys_in_kv_map f \<Longrightarrow> unat (i - 1) < unat i"
  proof (cases "i = 0")
    case True
    assume "i - 1 < num_keys_in_kv_map f"
    with True have "(- 1 :: u32) < num_keys_in_kv_map f" by simp
    then show ?thesis by simp
  next
    case False
    then show ?thesis
      by (metis diff_less unat_minus_one unat_gt_0 zero_less_one)
  qed
  with lt n show "((w, f', i - 1), (w, f, i))
        \<in> measure (\<lambda>(w, f, i). if i < num_keys_in_kv_map f then Suc (unat i) else 0)"
    by simp
qed

declare backfill_loop.simps [simp del]

subsection \<open>The constructor\<close>

text \<open>Lines 98 to 239: buffers, retry loop and back-fill, on the filter whose geometry is
  fixed.\<close>

definition initial_work :: "bff_for_kv_map_t \<Rightarrow> nat \<Rightarrow> work option" where
  "initial_work f block_bits =
     (let n = num_keys_in_kv_map f;
          block_size = (push_bit block_bits 1 :: u32)
      in do {
        ro \<leftarrow> wr (replicate (unat (n + 1)) 0) (unat n) 1;
        Some \<lparr> reverseOrder = ro,
               reverseH = replicate (unat n) 0,
               alone = replicate (unat (array_length f)) 0,
               t2count = replicate (unat (array_length f)) 0,
               t2hash = replicate (unat (array_length f)) 0,
               startPos = replicate (unat block_size) 0,
               h012 = replicate 5 0,
               hm_keys = Map.empty \<rparr>
      })"

definition build ::
  "bff_for_kv_map_t \<Rightarrow> bff_key_t list \<Rightarrow> u32 list \<Rightarrow> (error + bff_for_kv_map_t) option" where
  "build f keys values =
     do {
       block_bits \<leftarrow> block_bits_loop 1 (segment_count f);
       w \<leftarrow> initial_work f block_bits;
       r \<leftarrow> retry_loop f (zip keys values) block_bits 0 w;
       case r of
         Inl e \<Rightarrow> Some (Inl e)
       | Inr w' \<Rightarrow> map_option Inr (backfill_loop w' f (num_keys_in_kv_map f - 1))
     }"

definition construct ::
  "u8 list \<Rightarrow> bff_key_t list \<Rightarrow> u32 list \<Rightarrow> u64 \<Rightarrow> u64 \<Rightarrow> (error + bff_for_kv_map_t) option" where
  "construct seed_bytes keys values p lbl =
     (if length keys \<noteq> length values then Some (Inl LengthMismatch)
      else if \<not> are_all_keys_distinct keys then Some (Inl DuplicateKeys)
      else if p < 256 then Some (Inl ModulusTooSmall)
      else do {
        f \<leftarrow> init_filter seed_bytes (of_nat (length keys)) p lbl;
        build f keys values
      })"

subsection \<open>The constructor on scratch vectors that hold stale data\<close>






subsection \<open>Serialization\<close>

definition serialized_num_bytes :: "bff_for_kv_map_t \<Rightarrow> nat" where
  "serialized_num_bytes f = 32 + 4 + 8 + 8 + 4 + 4 + 4 + 4 + length (fingerprints f) * 4"

text \<open>\<^verbatim>\<open>serialize\<close> returns its boolean result and the buffer after the call.  The last
  \<^verbatim>\<open>copy_n\<close> reads \<open>array_length\<close> words of the table.\<close>

definition serialize :: "bff_for_kv_map_t \<Rightarrow> u8 list \<Rightarrow> (bool \<times> u8 list) option" where
  "serialize f bytes =
     (if length bytes \<noteq> serialized_num_bytes f then Some (False, bytes)
      else if length (fingerprints f) < unat (array_length f) then None
      else Some (True,
             take 32 (seed f)
             @ to_le_bytes 4 (num_keys_in_kv_map f)
             @ to_le_bytes 8 (plaintext_modulo f)
             @ to_le_bytes 8 (label f)
             @ to_le_bytes 4 (segment_length f)
             @ to_le_bytes 4 (segment_count f)
             @ to_le_bytes 4 (segment_count_length f)
             @ to_le_bytes 4 (array_length f)
             @ concat (map (to_le_bytes 4) (take (unat (array_length f)) (fingerprints f)))))"

text \<open>\<^verbatim>\<open>std::copy_n(bytes.subspan(off).begin(), k, ...)\<close>: \<open>k\<close> bytes from offset
  \<open>off\<close>; undefined when the buffer ends before.\<close>

definition read_bytes :: "u8 list \<Rightarrow> nat \<Rightarrow> nat \<Rightarrow> u8 list option" where
  "read_bytes bytes off k = (if off + k \<le> length bytes then Some (take k (drop off bytes)) else None)"

definition deserialize :: "u8 list \<Rightarrow> bff_for_kv_map_t option" where
  "deserialize bytes =
     do {
       sd \<leftarrow> read_bytes bytes 0 32;
       n \<leftarrow> read_bytes bytes 32 4;
       p \<leftarrow> read_bytes bytes 36 8;
       lbl \<leftarrow> read_bytes bytes 44 8;
       sl \<leftarrow> read_bytes bytes 52 4;
       sc \<leftarrow> read_bytes bytes 56 4;
       scl \<leftarrow> read_bytes bytes 60 4;
       al \<leftarrow> read_bytes bytes 64 4;
       fps \<leftarrow> read_bytes bytes 68 (unat (from_le_bytes al :: u32) * 4);
       Some \<lparr> seed = sd,
              num_keys_in_kv_map = from_le_bytes n,
              plaintext_modulo = from_le_bytes p,
              label = from_le_bytes lbl,
              segment_length = from_le_bytes sl,
              segment_length_mask = (from_le_bytes sl :: u32) - 1,
              segment_count = from_le_bytes sc,
              segment_count_length = from_le_bytes scl,
              array_length = from_le_bytes al,
              fingerprints = map (\<lambda>i. from_le_bytes (take 4 (drop (4 * i) fps)))
                               [0..<unat (from_le_bytes al :: u32)] \<rparr>
     }"


subsection \<open>Invariants used in the proofs\<close>

text \<open>The geometry of a filter is consistent: the segment length is a power of two of at
  most \<open>2 ^ 18\<close>, the mask is its low bits, and the products that give the band and table
  sizes do not wrap.\<close>

definition geometry_ok :: "bff_for_kv_map_t \<Rightarrow> bool" where
  "geometry_ok f \<longleftrightarrow>
     (\<exists>k\<le>18. segment_length f = 2 ^ k \<and> segment_length_mask f = mask k)
     \<and> 1 \<le> unat (segment_count f)
     \<and> unat (segment_count_length f) = unat (segment_count f) * unat (segment_length f)
     \<and> unat (array_length f) = (unat (segment_count f) + 2) * unat (segment_length f)
     \<and> length (fingerprints f) = unat (array_length f)"

text \<open>Two filters that differ in the contents of the fingerprint table only.\<close>

definition same_header :: "bff_for_kv_map_t \<Rightarrow> bff_for_kv_map_t \<Rightarrow> bool" where
  "same_header f f' \<longleftrightarrow>
     seed f' = seed f \<and> num_keys_in_kv_map f' = num_keys_in_kv_map f
     \<and> plaintext_modulo f' = plaintext_modulo f \<and> label f' = label f
     \<and> segment_length f' = segment_length f
     \<and> segment_length_mask f' = segment_length_mask f
     \<and> segment_count f' = segment_count f
     \<and> segment_count_length f' = segment_count_length f
     \<and> array_length f' = array_length f
     \<and> length (fingerprints f') = length (fingerprints f)"

text \<open>The filter and the buffers the constructor starts from when there are at most one
  key: segment length 4, one segment, twelve slots.\<close>

definition tiny_filter :: "u8 list \<Rightarrow> u32 \<Rightarrow> u64 \<Rightarrow> u64 \<Rightarrow> bff_for_kv_map_t" where
  "tiny_filter sd n p l =
     \<lparr> seed = sd, num_keys_in_kv_map = n, plaintext_modulo = p, label = l,
       segment_length = 4, segment_length_mask = 3, segment_count = 1,
       segment_count_length = 4, array_length = 12, fingerprints = replicate 12 0 \<rparr>"

definition tiny_work :: "u64 list \<Rightarrow> u8 list \<Rightarrow> work" where
  "tiny_work ro rh =
     \<lparr> reverseOrder = ro, reverseH = rh, alone = replicate 12 0, t2count = replicate 12 0,
       t2hash = replicate 12 0, startPos = [0, 0], h012 = replicate 5 0,
       hm_keys = Map.empty \<rparr>"



section \<open>Hash triple and geometry\<close>

lemma unat_div_pow: "unat (w :: 'a::len word) div 2 ^ k = unat (drop_bit k w)"
  unfolding unat_drop_bit_eq by (simp add: drop_bit_eq_div)

lemma unat_mulhi: "unat (mulhi a b) = (unat a * unat b) div 2 ^ 64"
proof -
  have lt: "unat a * unat b < 2 ^ 128"
  proof -
    have "unat a < 2 ^ 64" "unat b < 2 ^ 64"
      using unsigned_less [of a, where 'a = nat] unsigned_less [of b, where 'a = nat] by simp_all
    then have "unat a * unat b < 2 ^ 64 * 2 ^ 64"
      by (intro mult_strict_mono) simp_all
    then show ?thesis by simp
  qed
  have a: "unat (ucast a :: u128) = unat a" and b: "unat (ucast b :: u128) = unat b"
    by (simp_all add: unsigned_ucast_eq take_bit_nat_eq_self_iff)
       (use unsigned_less [of a, where 'a = nat] unsigned_less [of b, where 'a = nat] in \<open>simp_all\<close>)
  have m: "unat ((ucast a :: u128) * ucast b) = unat a * unat b"
    using lt by (simp add: unat_mult_lem [THEN iffD1] a b)
  have d: "unat (drop_bit 64 ((ucast a :: u128) * ucast b)) = (unat a * unat b) div 2 ^ 64"
    by (simp only: unat_div_pow [symmetric] m)
  have "(unat a * unat b) div 2 ^ 64 < 2 ^ 64"
    using lt by (simp add: less_mult_imp_div_less)
  then show ?thesis
    unfolding mulhi_def by (simp add: unsigned_ucast_eq d take_bit_nat_eq_self_iff)
qed

lemma mulhi_less: "0 < unat b \<Longrightarrow> unat (mulhi a b) < unat b"
proof -
  assume b: "0 < unat b"
  have "unat a < 2 ^ 64" using unsigned_less [of a, where 'a = nat] by simp
  then have "unat a * unat b < 2 ^ 64 * unat b" using b by simp
  then have "(unat a * unat b) div 2 ^ 64 < unat b"
    by (simp add: less_mult_imp_div_less mult.commute)
  then show ?thesis by (simp add: unat_mulhi)
qed

lemma xor_low_bits_div:
  fixes w x :: u32
  shows "unat (w XOR (x AND mask k)) div 2 ^ k = unat w div 2 ^ k"
proof -
  have "drop_bit k (w XOR (x AND mask k)) = drop_bit k w"
    by (rule bit_word_eqI) (auto simp: bit_simps)
  then show ?thesis by (simp only: unat_div_pow)
qed

lemma xor_low_bits_less:
  fixes w x :: u32
  assumes "unat w < (c + 1) * 2 ^ k"
  shows "unat (w XOR (x AND mask k)) < (c + 1) * 2 ^ k"
proof -
  have "unat w div 2 ^ k < c + 1" using assms by (simp add: less_mult_imp_div_less)
  then have "unat (w XOR (x AND mask k)) div 2 ^ k < c + 1" by (simp add: xor_low_bits_div)
  then show ?thesis
    by (metis (no_types) div_less_iff_less_mult zero_less_numeral zero_less_power)
qed


lemma unat_2p32: "k < 32 \<Longrightarrow> unat (2 ^ k :: u32) = 2 ^ k"
proof -
  assume k: "k < 32"
  have "(2 ^ k :: u32) = of_nat (2 ^ k)" by simp
  then have "unat (2 ^ k :: u32) = 2 ^ k mod 2 ^ 32" by (simp only: unat_of_nat) simp
  moreover have "(2::nat) ^ k < 2 ^ 32" using k by (intro power_strict_increasing) simp_all
  ultimately show ?thesis by simp
qed

lemma geometry_arith:
  fixes cap sl :: u32
  assumes k: "k \<le> 18" and sl: "sl = 2 ^ k"
  defines "sc0 \<equiv> (((cap + sl - 1) div sl - (3 - 1) + 3 - 1) * sl + sl - 1) div sl"
  defines "sc \<equiv> (if sc0 \<le> 3 - 1 then 1 else sc0 - (3 - 1))"
  shows "1 \<le> unat sc"
    and "unat (sc * sl) = unat sc * unat sl"
    and "unat ((sc + 3 - 1) * sl) = (unat sc + 2) * unat sl"
proof -
  define S where "S = (2::nat) ^ k"
  have S: "unat sl = S" using k by (simp add: sl S_def unat_2p32)
  have Spos: "0 < S" by (simp add: S_def)
  have SS: "S * 2 ^ (32 - k) = 2 ^ 32"
    using k by (simp add: S_def flip: power_add)
  have Sle: "S \<le> 2 ^ 18" unfolding S_def using k by (intro power_increasing) simp_all
  define q where "q = unat ((cap + sl - 1) div sl)"
  have q: "q < 2 ^ (32 - k)"
  proof -
    have "unat (cap + sl - 1) < 2 ^ 32" using unsigned_less [of "cap + sl - 1", where 'a = nat] by simp
    then have "unat (cap + sl - 1) < 2 ^ (32 - k) * S" using SS by (simp add: mult.commute)
    then have "unat (cap + sl - 1) div S < 2 ^ (32 - k)"
      using Spos by (simp add: less_mult_imp_div_less)
    then show ?thesis by (simp add: q_def unat_div S)
  qed
  have qS: "q * S + S \<le> 2 ^ 32"
  proof -
    have "q + 1 \<le> 2 ^ (32 - k)" using q by simp
    then have "(q + 1) * S \<le> 2 ^ (32 - k) * S" by (rule mult_le_mono1)
    then show ?thesis using SS by (simp add: mult.commute)
  qed
  have al0: "((cap + sl - 1) div sl - (3 - 1) + 3 - 1) * sl = ((cap + sl - 1) div sl) * sl" by simp
  have u0: "unat (((cap + sl - 1) div sl) * sl) = q * S"
    using qS Spos by (simp add: unat_mult_lem [THEN iffD1] q_def [symmetric] S)
  have u1: "unat (((cap + sl - 1) div sl) * sl + sl) = q * S + S \<or> (q * S + S = 2 ^ 32)"
    using qS by (cases "q * S + S = 2 ^ 32") (simp_all add: unat_add_lem [THEN iffD1] u0 S)
  have u2: "unat (((cap + sl - 1) div sl) * sl + sl - 1) = q * S + S - 1"
  proof -
    have "unat (((cap + sl - 1) div sl) * sl + sl - 1) = unat (((cap + sl - 1) div sl) * sl + (sl - 1))"
      by (simp add: add_diff_eq)
    also have "\<dots> = q * S + (S - 1)"
    proof -
      have "1 \<le> sl" using Spos S by (simp add: word_le_nat_alt)
      then have "unat (sl - 1) = S - 1" by (simp add: unat_sub S)
      moreover have "q * S + (S - 1) < 2 ^ 32" using qS Spos by simp
      ultimately show ?thesis by (simp add: unat_add_lem [THEN iffD1] u0)
    qed
    finally show ?thesis using Spos by simp
  qed
  have sc0: "unat sc0 = q"
  proof -
    have "unat sc0 = (q * S + S - 1) div S"
      unfolding sc0_def al0 by (simp add: unat_div u2 S)
    also have "\<dots> = q"
      using Spos by (metis add.commute add_diff_cancel_left' div_mult_self3 div_less diff_less zero_less_one
        add.right_neutral Nat.diff_add_assoc One_nat_def Suc_leI less_numeral_extra(3))
    finally show ?thesis .
  qed
  have sc: "unat sc = (if q \<le> 2 then 1 else q - 2)"
  proof (cases "sc0 \<le> 2")
    case True
    then show ?thesis using sc0 by (simp add: sc_def word_le_nat_alt)
  next
    case False
    then have "2 \<le> sc0" by (simp add: word_le_nat_alt)
    then have "unat (sc0 - 2) = unat sc0 - 2" by (simp add: unat_sub)
    then show ?thesis using False sc0 by (simp add: sc_def word_le_nat_alt)
  qed
  show "1 \<le> unat sc" using sc by (simp split: if_splits)
  have bound: "(unat sc + 2) * S < 2 ^ 32"
  proof (cases "q \<le> 2")
    case True
    then have "(unat sc + 2) * S = 3 * S" using sc by simp
    also have "\<dots> \<le> 3 * 2 ^ 18" using Sle by simp
    finally show ?thesis by simp
  next
    case False
    then have "unat sc + 2 = q" using sc by simp
    then have "(unat sc + 2) * S = q * S" by simp
    then show ?thesis using qS Spos by simp
  qed
  then have b2: "unat sc * S < 2 ^ 32" by (simp add: add_mult_distrib)
  show "unat (sc * sl) = unat sc * unat sl"
    using b2 by (simp add: unat_mult_lem [THEN iffD1] S)
  have e: "unat (sc + 2) = unat sc + 2"
  proof -
    have "(unat sc + 2) * 1 \<le> (unat sc + 2) * S" using Spos by (intro mult_le_mono2) simp
    then have "unat sc + unat (2 :: u32) < 2 ^ 32" using bound by simp
    then show ?thesis by (simp add: unat_add_lem [THEN iffD1])
  qed
  have "unat (sc + 2) * unat sl < 2 ^ LENGTH(32)" using bound by (simp only: e S) simp
  then have "unat ((sc + 2) * sl) = unat (sc + 2) * unat sl" by (rule unat_mult_lem [THEN iffD1])
  moreover have "sc + 3 - 1 = sc + 2" by simp
  ultimately show "unat ((sc + 3 - 1) * sl) = (unat sc + 2) * unat sl"
    by (simp only: e)
qed


lemma shl1_pow: "shl1 e = Some s \<Longrightarrow> \<exists>j<32. s = 2 ^ j"
proof -
  assume a: "shl1 e = Some s"
  then have e: "e < 32" and s: "s = push_bit (unat e) 1" by (auto simp: shl1_def split: if_splits)
  from e have "unat e < 32" by (simp add: word_less_nat_alt)
  moreover have "s = 2 ^ unat e" by (simp add: s push_bit_eq_mult)
  ultimately show ?thesis by blast
qed

lemma sl_cap:
  assumes "j < 32"
  shows "(if (2 ^ j :: u32) > 262144 then 262144 else 2 ^ j) = (2 ^ min j 18 :: u32)"
proof -
  have "(262144 :: u32) = 2 ^ 18" by simp
  then have "((2 ^ j :: u32) > 262144) = (unat (2 ^ 18 :: u32) < unat (2 ^ j :: u32))"
    by (simp only: word_less_nat_alt)
  also have "\<dots> = ((2::nat) ^ 18 < 2 ^ j)" using assms by (simp only: unat_2p32)
  also have "\<dots> = (18 < j)" by (rule power_strict_increasing_iff) simp
  finally have c: "((2 ^ j :: u32) > 262144) = (18 < j)" .
  show ?thesis unfolding c by (auto simp: min_def)
qed

lemma init_filter_ok:
  assumes "init_filter sd n p l = Some f"
  shows "geometry_ok f" and "seed f = sd" and "num_keys_in_kv_map f = n"
    and "plaintext_modulo f = p" and "label f = l"
    and "fingerprints f = replicate (unat (array_length f)) 0"
proof -
  from assms obtain sl0 capacity where
    sl0: "(if n = 0 then Some 4 else calculate_segment_length arity n) = Some sl0"
    and f: "f = (let sl = (if sl0 > 262144 then 262144 else sl0);
              slm = sl - 1;
              initSegmentCount = init_segment_count capacity sl;
              al0 = (initSegmentCount + arity - 1) * sl;
              sc0 = (al0 + sl - 1) div sl;
              sc = (if sc0 \<le> arity - 1 then 1 else sc0 - (arity - 1));
              al = (sc + arity - 1) * sl;
              scl = sc * sl
          in \<lparr> seed = sd, num_keys_in_kv_map = n, plaintext_modulo = p,
                    label = l, segment_length = sl, segment_length_mask = slm,
                    segment_count = sc, segment_count_length = scl, array_length = al,
                    fingerprints = replicate (unat al) 0 \<rparr>)"
    unfolding init_filter_def by (auto simp: Let_def split: Option.bind_splits)
  have "\<exists>j<32. sl0 = 2 ^ j"
  proof (cases "n = 0")
    case True
    with sl0 have "sl0 = 2 ^ 2" by simp
    then show ?thesis by (intro exI [of _ 2]) simp
  next
    case False
    with sl0 obtain e where "shl1 e = Some sl0"
      by (auto simp: calculate_segment_length_def arity_def split: Option.bind_splits)
    then show ?thesis by (rule shl1_pow)
  qed
  then obtain j where j: "j < 32" and slj: "sl0 = 2 ^ j" by blast
  define k where "k = min j 18"
  define sl :: u32 where "sl = 2 ^ k"
  have k: "k \<le> 18" by (simp add: k_def)
  have sl: "(if sl0 > 262144 then 262144 else sl0) = sl"
    unfolding slj sl_def k_def using j by (rule sl_cap)
  note g = geometry_arith [OF k sl_def, of capacity]
  have m: "sl - 1 = mask k" by (simp add: sl_def mask_eq_exp_minus_1)
  show "geometry_ok f"
    unfolding geometry_ok_def f Let_def sl init_segment_count_def arity_def
    using g k m sl_def by auto
  show "seed f = sd" "num_keys_in_kv_map f = n" "plaintext_modulo f = p" "label f = l"
    "fingerprints f = replicate (unat (array_length f)) 0"
    unfolding f Let_def by simp_all
qed

lemma hash_batch_bands:
  assumes ok: "geometry_ok f" and hb: "hash_batch f hash = (h0, h1, h2)"
  shows "unat h0 < unat (segment_count f) * unat (segment_length f)"
    and "unat h1 div unat (segment_length f) = unat h0 div unat (segment_length f) + 1"
    and "unat h2 div unat (segment_length f) = unat h0 div unat (segment_length f) + 2"
proof -
  from ok obtain k where k: "k \<le> 18" and sl: "segment_length f = 2 ^ k"
    and slm: "segment_length_mask f = mask k"
    and sc: "1 \<le> unat (segment_count f)"
    and scl: "unat (segment_count_length f) = unat (segment_count f) * unat (segment_length f)"
    and al: "unat (array_length f) = (unat (segment_count f) + 2) * unat (segment_length f)"
    unfolding geometry_ok_def by blast
  define S where "S = (2::nat) ^ k"
  define C where "C = unat (segment_count f)"
  have S: "unat (segment_length f) = S" using k by (simp add: sl S_def unat_2p32)
  have Spos: "0 < S" by (simp add: S_def)
  have al32: "(C + 2) * S < 2 ^ 32"
    using unsigned_less [of "array_length f", where 'a = nat] al by (simp add: C_def S)
  have h0: "h0 = ucast (mulhi hash (ucast (segment_count_length f)))"
    and h1: "h1 = (h0 + segment_length f) XOR ((ucast (drop_bit 18 hash) :: u32) AND mask k)"
    and h2: "h2 = (h0 + segment_length f + segment_length f) XOR ((ucast hash :: u32) AND mask k)"
    using hb unfolding hash_batch_def Let_def slm by auto
  have u64: "unat (ucast (segment_count_length f) :: u64) = C * S"
    using unsigned_less [of "segment_count_length f", where 'a = nat]
    by (simp add: unsigned_ucast_eq take_bit_nat_eq_self_iff scl C_def S)
  have "0 < C * S" using sc Spos by (simp add: C_def)
  then have "unat (mulhi hash (ucast (segment_count_length f))) < C * S"
    using mulhi_less [of "ucast (segment_count_length f)" hash] by (simp add: u64)
  moreover have "C * S < 2 ^ 32" using al32 by (simp add: add_mult_distrib)
  ultimately have uh0: "unat h0 < C * S"
    unfolding h0 by (simp add: unsigned_ucast_eq take_bit_nat_eq_self)
  then show "unat h0 < unat (segment_count f) * unat (segment_length f)" by (simp add: C_def S)
  have a1: "unat (h0 + segment_length f) = unat h0 + S"
  proof -
    have "unat h0 + S < 2 ^ 32" using uh0 al32 by (simp add: add_mult_distrib)
    then show ?thesis by (simp add: unat_add_lem [THEN iffD1] S)
  qed
  have a2: "unat (h0 + segment_length f + segment_length f) = unat h0 + S + S"
  proof -
    have "unat h0 + S + S < 2 ^ 32" using uh0 al32 by (simp add: add_mult_distrib)
    then have "unat (h0 + segment_length f) + unat (segment_length f) < 2 ^ LENGTH(32)"
      by (simp only: a1 S) simp
    then have "unat (h0 + segment_length f + segment_length f)
      = unat (h0 + segment_length f) + unat (segment_length f)"
      by (rule unat_add_lem [THEN iffD1])
    then show ?thesis by (simp only: a1 S)
  qed
  show "unat h1 div unat (segment_length f) = unat h0 div unat (segment_length f) + 1"
    unfolding h1 S S_def xor_low_bits_div a1 using Spos by (simp add: S_def)
  show "unat h2 div unat (segment_length f) = unat h0 div unat (segment_length f) + 2"
    unfolding h2 S S_def xor_low_bits_div a2 using Spos by (simp add: S_def)
qed

lemma hash_batch_in_bounds:
  assumes ok: "geometry_ok f" and hb: "hash_batch f hash = (h0, h1, h2)"
  shows "unat h0 < unat (array_length f)" and "unat h1 < unat (array_length f)"
    and "unat h2 < unat (array_length f)"
proof -
  note b = hash_batch_bands [OF ok hb]
  define S where "S = unat (segment_length f)"
  define C where "C = unat (segment_count f)"
  from ok have al: "unat (array_length f) = (C + 2) * S"
    unfolding geometry_ok_def C_def S_def by blast
  from ok have "S \<noteq> 0" unfolding geometry_ok_def S_def by (auto simp: unat_2p32)
  then have Spos: "0 < S" by simp
  have d0: "unat h0 div S < C" using b(1) Spos by (simp add: less_mult_imp_div_less C_def S_def)
  have "unat h0 < (C + 2) * S" using b(1) by (simp add: C_def S_def add_mult_distrib)
  then show "unat h0 < unat (array_length f)" by (simp add: al)
  have "unat h1 div S < C + 2" using b(2) d0 by (simp add: S_def)
  then show "unat h1 < unat (array_length f)"
    using Spos by (simp add: al div_less_iff_less_mult)
  have "unat h2 div S < C + 2" using b(3) d0 by (simp add: S_def)
  then show "unat h2 < unat (array_length f)"
    using Spos by (simp add: al div_less_iff_less_mult)
qed


section \<open>Argument checks and the shape of a constructed filter\<close>

lemma key_equiv: "(\<not> key_less x k \<and> \<not> key_less k x) \<longleftrightarrow> x = k"
  by (cases x; cases k) (auto simp: key_less_def)

lemma distinct_loop_iff: "distinct_loop s keys \<longleftrightarrow> distinct keys \<and> set keys \<inter> set s = {}"
proof (induction keys arbitrary: s)
  case Nil
  then show ?case by simp
next
  case (Cons key keys)
  show ?case
    by (auto simp: set_insert_def list_ex_iff key_equiv Cons.IH)
qed

lemma are_all_keys_distinct_iff: "are_all_keys_distinct keys \<longleftrightarrow> distinct keys"
  by (simp add: are_all_keys_distinct_def distinct_loop_iff)

lemma retry_loop_error:
  "retry_loop f kvs block_bits loop w = Some (Inl e) \<Longrightarrow> e = ConstructionFailed"
proof (induction f kvs block_bits loop w rule: retry_loop.induct)
  case (1 f kvs block_bits loop w)
  show ?case
  proof (cases "loop + 1 > BFF_FOR_KV_MAP_MAX_CREATE_ATTEMPT_COUNT")
    case True
    with "1.prems" show ?thesis by (simp add: retry_loop.simps [of f kvs block_bits loop w])
  next
    case False
    with "1.prems" obtain w' where a: "attempt f kvs block_bits w = Some (Restart w')"
      and r: "retry_loop f kvs block_bits (loop + 1) w' = Some (Inl e)"
      by (auto simp: retry_loop.simps [of f kvs block_bits loop w]
          split: option.splits attempt_result.splits)
    from False a r show ?thesis by (intro "1.IH") auto
  qed
qed

lemma build_error: "build f keys values = Some (Inl e) \<Longrightarrow> e = ConstructionFailed"
  unfolding build_def
  by (auto split: Option.bind_splits sum.splits dest: retry_loop_error)

lemma same_header_refl: "same_header f f"
  by (simp add: same_header_def)

lemma same_header_trans: "same_header f g \<Longrightarrow> same_header g h \<Longrightarrow> same_header f h"
  by (simp add: same_header_def)

lemma backfill_step_same: "backfill_step w f i = Some f' \<Longrightarrow> same_header f f'"
  unfolding backfill_step_def Let_def
  by (auto simp: same_header_def wr_def split: if_splits prod.splits Option.bind_splits)

lemma backfill_loop_same: "backfill_loop w f i = Some f' \<Longrightarrow> same_header f f'"
proof (induction w f i rule: backfill_loop.induct)
  case (1 w f i)
  show ?case
  proof (cases "i < num_keys_in_kv_map f")
    case True
    with "1.prems" obtain g where s: "backfill_step w f i = Some g"
      and l: "backfill_loop w g (i - 1) = Some f'"
      by (auto simp: backfill_loop.simps [of w f i] split: option.splits)
    from True s l have "same_header g f'" by (intro "1.IH")
    with backfill_step_same [OF s] show ?thesis by (rule same_header_trans)
  next
    case False
    with "1.prems" show ?thesis
      by (simp add: backfill_loop.simps [of w f i] same_header_refl)
  qed
qed

lemma build_same: "build f keys values = Some (Inr f') \<Longrightarrow> same_header f f'"
  unfolding build_def
  by (auto split: Option.bind_splits sum.splits dest: backfill_loop_same)

lemma geometry_ok_same: "geometry_ok f \<Longrightarrow> same_header f f' \<Longrightarrow> geometry_ok f'"
  by (simp add: geometry_ok_def same_header_def)

lemma construct_result:
  assumes "construct seed_bytes keys values p lbl = Some (Inr f)"
  shows "geometry_ok f" and "seed f = seed_bytes" and "plaintext_modulo f = p" and "256 \<le> p"
    and "label f = lbl" and "num_keys_in_kv_map f = of_nat (length keys)"
proof -
  from assms have p: "\<not> p < 256" by (auto simp: construct_def split: if_splits)
  from assms obtain g where i: "init_filter seed_bytes (of_nat (length keys)) p lbl = Some g"
    and b: "build g keys values = Some (Inr f)"
    by (auto simp: construct_def split: if_splits Option.bind_splits)
  note s = build_same [OF b]
  note g = init_filter_ok [OF i]
  show "geometry_ok f" using g(1) s by (rule geometry_ok_same)
  show "seed f = seed_bytes" "plaintext_modulo f = p" "label f = lbl"
    "num_keys_in_kv_map f = of_nat (length keys)"
    using s g by (simp_all add: same_header_def)
  show "256 \<le> p" using p by simp
qed

lemma ucast_down_up:
  fixes y :: u64
  assumes "unat y < 2 ^ 32"
  shows "(ucast (ucast y :: u32) :: u64) = y"
  by (rule word_unat_eq_iff [THEN iffD2])
     (use assms in \<open>simp add: unsigned_ucast_eq unsigned_take_bit_eq take_bit_nat_eq_self\<close>)

lemma unat_ucast_u32_lt: "unat (ucast (w :: u32) :: u64) < 2 ^ 32"
proof -
  have "unat (ucast w :: u64) = unat w"
    by (simp add: unsigned_ucast_eq take_bit_nat_eq_self_iff)
       (use unsigned_less [of w, where 'a = nat] in simp)
  then show ?thesis using unsigned_less [of w, where 'a = nat] by simp
qed

lemma recover_defined:
  assumes ok: "geometry_ok f" and p: "plaintext_modulo f \<noteq> 0"
  shows "\<exists>v. recover f key = Some v \<and> ucast v < plaintext_modulo f"
proof -
  obtain h0 h1 h2 where hb: "hash_batch f (mix256 (words key) (seed f)) = (h0, h1, h2)"
    by (cases "hash_batch f (mix256 (words key) (seed f))")
  note b = hash_batch_in_bounds [OF ok hb]
  from ok have len: "length (fingerprints f) = unat (array_length f)"
    by (simp add: geometry_ok_def)
  define x :: u64 where "x = ucast (fingerprints f ! unat h0 + fingerprints f ! unat h1
      + fingerprints f ! unat h2
      + (ucast (mix (mix256 (words key) (seed f)) (label f) mod plaintext_modulo f) :: u32))"
  have r0: "rd (fingerprints f) (unat h0) = Some (fingerprints f ! unat h0)"
    and r1: "rd (fingerprints f) (unat h1) = Some (fingerprints f ! unat h1)"
    and r2: "rd (fingerprints f) (unat h2) = Some (fingerprints f ! unat h2)"
    using b len by (simp_all add: rd_def)
  have r: "recover f key = Some (ucast (x mod plaintext_modulo f))"
    unfolding recover_def Let_def hb prod.case r0 r1 r2 x_def using p by simp
  have "unat x < 2 ^ 32"
    unfolding x_def by (rule unat_ucast_u32_lt)
  moreover have "unat (x mod plaintext_modulo f) \<le> unat x"
    by (simp add: unat_mod)
  ultimately have "unat (x mod plaintext_modulo f) < 2 ^ 32" by simp
  then have "(ucast (ucast (x mod plaintext_modulo f) :: u32) :: u64) = x mod plaintext_modulo f"
    by (rule ucast_down_up)
  moreover have "x mod plaintext_modulo f < plaintext_modulo f"
    using p by (simp add: word_mod_less_divisor word_greater_zero_iff)
  ultimately show ?thesis using r by simp
qed


section \<open>Evaluation rules\<close>

text \<open>The monadic steps are evaluated in program order: with the congruence rule
  \<open>bind_weak_cong\<close> the simplifier computes the first step of a \<open>\<bind>\<close> before it
  looks at the rest.  The loops that are partial functions unfold only once their guard is
  decided.\<close>

lemma bind_weak_cong: "x = y \<Longrightarrow> Option.bind x f = Option.bind y f"
  by simp

lemma replicate_num: "replicate (numeral k) x = x # replicate (pred_numeral k) x"
  by (simp add: numeral_eq_Suc)

lemma list_update_num: "(x # xs)[numeral k := v] = x # xs[pred_numeral k := v]"
  by (simp add: numeral_eq_Suc)

lemma upt_0_12: "[0..<12] = [0, 1, 2, 3, 4, 5, 6, 7, 8, 9, 10, 11]"
  by (simp add: upt_rec)

lemma probe_hit:
  "rd sp (unat si) = Some pos \<Longrightarrow> rd ro (unat pos) = Some 0 \<Longrightarrow> probe ro sp mb si = Some si"
  by (subst probe.simps) simp

lemma probe_miss:
  "rd sp (unat si) = Some pos \<Longrightarrow> rd ro (unat pos) = Some cur \<Longrightarrow> cur \<noteq> 0
   \<Longrightarrow> probe ro sp mb si = probe ro sp mb ((si + 1) AND mb)"
  by (subst probe.simps) simp

lemma peel_loop_step: "0 < fst (snd s) \<Longrightarrow> peel_loop f s = Option.bind (peel_step f s) (peel_loop f)"
  by (subst peel_loop.simps) simp

lemma peel_loop_done: "\<not> 0 < fst (snd s) \<Longrightarrow> peel_loop f s = Some s"
  by (subst peel_loop.simps) simp

lemma retry_loop_first:
  "attempt f kvs block_bits w = Some (Peeled w') \<Longrightarrow> retry_loop f kvs block_bits 0 w = Some (Inr w')"
  by (simp add: retry_loop.simps [of f kvs block_bits 0 w] BFF_FOR_KV_MAP_MAX_CREATE_ATTEMPT_COUNT_def)

lemmas buffer_eval = rd_def wr_def upd_def replicate_num list_update_num Let_def


lemma init_filter_1: "init_filter sd 1 p l = Some (tiny_filter sd 1 p l)"
  by (simp add: init_filter_def calculate_segment_length_def arity_def shl1_def double_to_u32_def
     capacity_of_def init_segment_count_def Let_def tiny_filter_def)

lemma block_bits_tiny: "block_bits_loop 1 1 = Some 1"
  by (simp add: block_bits_loop.simps)


lemma initial_work_1: "initial_work (tiny_filter sd 1 p l) 1 = Some (tiny_work [0, 1] [0])"
  by (simp add: initial_work_def tiny_filter_def tiny_work_def buffer_eval)


lemma startPos_init_1: "startPos_init (Suc 0) 1 2 = [0, 0]"
  by (simp add: startPos_init_def upt_rec)


lemma top_bit: "drop_bit 63 (h :: u64) = 0 \<or> drop_bit 63 h = 1"
proof -
  have "unat h < 2 * 2 ^ 63" using unsigned_less [of h, where 'a = nat] by simp
  then have "unat h div 2 ^ 63 < 2" by (rule less_mult_imp_div_less)
  then have "unat (drop_bit 63 h) < 2" by (simp only: unat_div_pow)
  then have "unat (drop_bit 63 h) = 0 \<or> unat (drop_bit 63 h) = 1" by auto
  then show ?thesis by (simp add: word_unat_eq_iff)
qed

lemma phase_A_one_key:
  "\<exists>sp. phase_A (tiny_filter sd 1 p l) [(k, v)] 1 (tiny_work [0, 1] [0])
     = Some ((tiny_work [mix256 (words k) sd, 1] [0])
              \<lparr>startPos := sp, hm_keys := [mix256 (words k) sd \<mapsto> v]\<rparr>)"
proof -
  have p: "probe [0, 1] [0, 0] 1 (drop_bit 63 (mix256 (words k) sd))
      = Some (drop_bit 63 (mix256 (words k) sd))"
    using top_bit [of "mix256 (words k) sd"]
    by (intro probe_hit [where pos = 0]) (auto simp: rd_def)
  show ?thesis
    using top_bit [of "mix256 (words k) sd"]
    by (auto simp: phase_A_def startPos_init_1 tiny_filter_def place_key_def p rd_def wr_def
          tiny_work_def Let_def)
qed

lemma phase_BC_one_key:
  fixes a b c :: u32
  assumes hb: "hash_batch g h = (a, b, c)" and al: "array_length g = 12"
    and n: "num_keys_in_kv_map g = 1"
    and a: "a = 0 \<or> a = 1 \<or> a = 2 \<or> a = 3"
    and b: "b = 4 \<or> b = 5 \<or> b = 6 \<or> b = 7"
    and c: "c = 8 \<or> c = 9 \<or> c = 10 \<or> c = 11"
  shows "\<exists>w'. phase_B g ((tiny_work [h, 1] [0])\<lparr>startPos := sp, hm_keys := m\<rparr>) = Some (w', False)
      \<and> (\<exists>w. phase_C g w' = Some (w, 0, 1)
            \<and> reverseOrder w = [h, 1] \<and> reverseH w = [2] \<and> hm_keys w = m)"
  using a b c
  by (elim disjE; simp add: hb [simplified] al n phase_B_def phase_C_def count_key_def upt_0_12
        scan_step_def peel_loop_step peel_loop_done
        peel_step_def tiny_work_def mod3_def buffer_eval cong: bind_weak_cong)

lemma word_cases_4:
  fixes x :: u32
  assumes "unat x div 4 = j" 
  shows "x = of_nat (4 * j) \<or> x = of_nat (4 * j + 1) \<or> x = of_nat (4 * j + 2) \<or> x = of_nat (4 * j + 3)"
proof -
  have "unat x = 4 * j + unat x mod 4" using assms by presburger
  moreover have "unat x mod 4 < 4" by simp
  ultimately have "unat x = 4 * j \<or> unat x = 4 * j + 1 \<or> unat x = 4 * j + 2 \<or> unat x = 4 * j + 3"
    by presburger
  moreover have "x = of_nat (unat x)" by simp
  ultimately show ?thesis by metis
qed

lemma geometry_ok_tiny: "geometry_ok (tiny_filter sd n p l)"
  unfolding geometry_ok_def tiny_filter_def
  by (auto intro!: exI [of _ 2] simp: mask_eq_exp_minus_1)

lemma hash_batch_tiny:
  assumes hb: "hash_batch (tiny_filter sd n p l) h = (a, b, c)"
  shows "a = 0 \<or> a = 1 \<or> a = 2 \<or> a = 3" and "b = 4 \<or> b = 5 \<or> b = 6 \<or> b = 7"
    and "c = 8 \<or> c = 9 \<or> c = 10 \<or> c = 11"
proof -
  note bd = hash_batch_bands [OF geometry_ok_tiny hb]
  have sl: "unat (segment_length (tiny_filter sd n p l)) = 4"
    and sc: "unat (segment_count (tiny_filter sd n p l)) = 1"
    by (simp_all add: tiny_filter_def)
  from bd(1) have a0: "unat a div 4 = 0" by (simp add: sl sc)
  from bd(2) a0 have b1: "unat b div 4 = 1" by (simp add: sl)
  from bd(3) a0 have c2: "unat c div 4 = 2" by (simp add: sl)
  show "a = 0 \<or> a = 1 \<or> a = 2 \<or> a = 3" using word_cases_4 [OF a0] by simp
  show "b = 4 \<or> b = 5 \<or> b = 6 \<or> b = 7" using word_cases_4 [OF b1] by simp
  show "c = 8 \<or> c = 9 \<or> c = 10 \<or> c = 11" using word_cases_4 [OF c2] by simp
qed

lemma attempt_one_key:
  "\<exists>w. attempt (tiny_filter sd 1 p l) [(k, v)] 1 (tiny_work [0, 1] [0]) = Some (Peeled w)
     \<and> reverseOrder w = [mix256 (words k) sd, 1] \<and> reverseH w = [2]
     \<and> hm_keys w = [mix256 (words k) sd \<mapsto> v]"
proof -
  define h where "h = mix256 (words k) sd"
  define g where "g = tiny_filter sd 1 p l"
  obtain a b c where hb: "hash_batch g h = (a, b, c)" by (cases "hash_batch g h")
  note r = hash_batch_tiny [OF hb [unfolded g_def]]
  obtain sp where A: "phase_A g [(k, v)] 1 (tiny_work [0, 1] [0])
     = Some ((tiny_work [h, 1] [0])\<lparr>startPos := sp, hm_keys := [h \<mapsto> v]\<rparr>)"
    unfolding g_def h_def using phase_A_one_key by blast
  have al: "array_length g = 12" and n: "num_keys_in_kv_map g = 1"
    by (simp_all add: g_def tiny_filter_def)
  from phase_BC_one_key [OF hb al n r, where sp = sp and m = "[h \<mapsto> v]"]
  obtain w' w where B: "phase_B g ((tiny_work [h, 1] [0])\<lparr>startPos := sp, hm_keys := [h \<mapsto> v]\<rparr>)
        = Some (w', False)"
    and C: "phase_C g w' = Some (w, 0, 1)"
    and w: "reverseOrder w = [h, 1]" "reverseH w = [2]" "hm_keys w = [h \<mapsto> v]"
    by blast
  have "attempt g [(k, v)] 1 (tiny_work [0, 1] [0]) = Some (Peeled w)"
    unfolding attempt_def A Option.bind.simps B snd_conv fst_conv if_False C n by simp
  with w show ?thesis unfolding g_def h_def by blast
qed

section \<open>Construction from zero keys and from one key\<close>

lemma tiny_filter_sel:
  "seed (tiny_filter sd n p l) = sd" "num_keys_in_kv_map (tiny_filter sd n p l) = n"
  "plaintext_modulo (tiny_filter sd n p l) = p" "label (tiny_filter sd n p l) = l"
  "segment_length (tiny_filter sd n p l) = 4" "segment_length_mask (tiny_filter sd n p l) = 3"
  "segment_count (tiny_filter sd n p l) = 1" "segment_count_length (tiny_filter sd n p l) = 4"
  "array_length (tiny_filter sd n p l) = 12" "fingerprints (tiny_filter sd n p l) = replicate 12 0"
  by (simp_all add: tiny_filter_def)

lemma hash_batch_fingerprints: "hash_batch (f\<lparr>fingerprints := x\<rparr>) h = hash_batch f h"
  by (simp add: hash_batch_def)

lemma backfill_loop_done: "\<not> i < num_keys_in_kv_map f \<Longrightarrow> backfill_loop w f i = Some f"
  by (subst backfill_loop.simps) simp

lemma backfill_loop_step:
  "i < num_keys_in_kv_map f \<Longrightarrow> backfill_step w f i = Some f'
    \<Longrightarrow> backfill_loop w f i = backfill_loop w f' (i - 1)"
  by (subst backfill_loop.simps) simp

lemma build_tiny:
  assumes a: "attempt (tiny_filter sd n p l) kvs 1 w0 = Some (Peeled w)"
    and i: "initial_work (tiny_filter sd n p l) 1 = Some w0"
    and kv: "kvs = zip keys values"
  shows "build (tiny_filter sd n p l) keys values
     = map_option Inr (backfill_loop w (tiny_filter sd n p l) (n - 1))"
proof -
  note sc = tiny_filter_sel(7) [of sd n p l] and nk = tiny_filter_sel(2) [of sd n p l]
  show ?thesis
    unfolding build_def sc block_bits_tiny Option.bind.simps i
      retry_loop_first [OF a [unfolded kv]] nk
    by simp
qed


lemma backfill_one_key:
  assumes ro: "reverseOrder w = [h, 1]" and rh: "reverseH w = [2]" and hm: "hm_keys w = [h \<mapsto> v]"
    and hb: "hash_batch (tiny_filter sd 1 p l) h = (a, b, c)"
  shows "backfill_loop w (tiny_filter sd 1 p l) 0
     = Some ((tiny_filter sd 1 p l)\<lparr>fingerprints := (replicate 12 0)[unat c := backfill_value p l h v 0 0]\<rparr>)"
proof -
  note bd = hash_batch_in_bounds [OF geometry_ok_tiny hb]
  have al: "unat (array_length (tiny_filter sd 1 p l)) = 12" by (simp add: tiny_filter_def)
  have s: "backfill_step w (tiny_filter sd 1 p l) 0
     = Some ((tiny_filter sd 1 p l)\<lparr>fingerprints := (replicate 12 0)[unat c := backfill_value p l h v 0 0]\<rparr>)"
    unfolding backfill_step_def ro rh hm
    using bd by (simp add: hb rd_def wr_def al tiny_filter_sel)
  have "backfill_loop w (tiny_filter sd 1 p l) 0
     = backfill_loop w ((tiny_filter sd 1 p l)\<lparr>fingerprints :=
          (replicate 12 0)[unat c := backfill_value p l h v 0 0]\<rparr>) (0 - 1)"
    by (rule backfill_loop_step [OF _ s]) (simp add: tiny_filter_sel)
  also have "\<dots> = Some ((tiny_filter sd 1 p l)\<lparr>fingerprints :=
          (replicate 12 0)[unat c := backfill_value p l h v 0 0]\<rparr>)"
    by (rule backfill_loop_done) (simp add: tiny_filter_sel)
  finally show ?thesis .
qed

lemma construct_one_key:
  assumes p: "256 \<le> p" and hb: "hash_batch (tiny_filter sd 1 p l) (mix256 (words k) sd) = (a, b, c)"
  shows "construct sd [k] [v] p l
     = Some (Inr ((tiny_filter sd 1 p l)\<lparr>fingerprints :=
          (replicate 12 0)[unat c := backfill_value p l (mix256 (words k) sd) v 0 0]\<rparr>))"
proof -
  obtain w where a: "attempt (tiny_filter sd 1 p l) [(k, v)] 1 (tiny_work [0, 1] [0]) = Some (Peeled w)"
    and w: "reverseOrder w = [mix256 (words k) sd, 1]" "reverseH w = [2]"
      "hm_keys w = [mix256 (words k) sd \<mapsto> v]"
    using attempt_one_key by blast
  have "build (tiny_filter sd 1 p l) [k] [v] = map_option Inr (backfill_loop w (tiny_filter sd 1 p l) (1 - 1))"
    by (rule build_tiny [OF a initial_work_1]) simp
  then have "build (tiny_filter sd 1 p l) [k] [v] = Some (Inr ((tiny_filter sd 1 p l)\<lparr>fingerprints :=
          (replicate 12 0)[unat c := backfill_value p l (mix256 (words k) sd) v 0 0]\<rparr>))"
    by (simp add: backfill_one_key [OF w hb])
  then show ?thesis
    using p by (simp add: construct_def are_all_keys_distinct_iff init_filter_1)
qed

lemma recover_one_key:
  assumes hb: "hash_batch (tiny_filter sd 1 p l) (mix256 (words k) sd) = (a, b, c)" and p: "p \<noteq> 0"
  shows "recover ((tiny_filter sd 1 p l)\<lparr>fingerprints := (replicate 12 0)[unat c := x]\<rparr>) k
     = Some (ucast ((ucast (x + (ucast (mix (mix256 (words k) sd) l mod p) :: u32)) :: u64) mod p))"
proof -
  have hb': "hash_batch ((tiny_filter sd 1 p l)\<lparr>fingerprints := (replicate 12 0)[unat c := x]\<rparr>)
      (mix256 (words k) sd) = (a, b, c)"
    using hb by (simp add: hash_batch_fingerprints)
  note r = hash_batch_tiny [OF hb]
  note bd = hash_batch_in_bounds [OF geometry_ok_tiny hb]
  have ne: "unat a \<noteq> unat c" "unat b \<noteq> unat c" using r by auto
  have lt: "unat a < 12" "unat b < 12" "unat c < 12" using bd by (simp_all add: tiny_filter_def)
  show ?thesis
    unfolding recover_def Let_def
    using p ne lt by (simp add: tiny_filter_sel hb' rd_def)
qed

subsection \<open>A one-key filter over the modulus 257\<close>

lemma murmur64_numeral: "murmur64 (numeral k) = (let h1 = numeral k XOR drop_bit 33 (numeral k);
          h2 = h1 * 0xff51afd7ed558ccd;
          h3 = h2 XOR drop_bit 33 h2;
          h4 = h3 * 0xc4ceb9fe1a85ec53
      in h4 XOR drop_bit 33 h4)"
  by (simp add: murmur64_def)

lemma murmur64_0: "murmur64 0 = 0"
  by (simp add: murmur64_def)

lemma murmur64_1: "murmur64 1 = 12994781566227106604"
  by (simp add: murmur64_def Let_def)

lemmas hash_eval = murmur64_numeral murmur64_0 murmur64_1 mix_def mix256_def mix256_inner_def Let_def

lemma seed_words_zero: "seed_words (replicate 32 0) = [0, 0, 0, 0]"
  by (simp add: seed_words_def from_le_bytes_def replicate_num upt_rec)

lemma example_hash: "mix256 (words (Key 0 0 0 1)) (replicate 32 0) = 0x6093143b8750c84d"
  by (simp add: hash_eval seed_words_zero)

lemma example_triple: "hash_batch (tiny_filter sd 1 p l) 0x6093143b8750c84d = (1, 5, 8)"
  by (simp add: hash_batch_def tiny_filter_sel mulhi_def Let_def)

lemma example_mask: "mix 0x6093143b8750c84d 1 = 16117921791086519926"
  by (simp add: hash_eval)

lemma example_value: "backfill_value 257 1 0x6093143b8750c84d 0 0 0 = 196"
  by (simp add: backfill_value_def example_mask)

lemma example_construct:
  "construct (replicate 32 0) [Key 0 0 0 1] [0] 257 1
     = Some (Inr ((tiny_filter (replicate 32 0) 1 257 1)\<lparr>fingerprints := [0,0,0,0,0,0,0,0,196,0,0,0]\<rparr>))"
proof -
  have "(256 :: u64) \<le> 257" by simp
  from construct_one_key [OF this, of "replicate 32 0" 1 "Key 0 0 0 1", unfolded example_hash, OF example_triple, of 0]
  show ?thesis by (simp add: example_value replicate_num list_update_num)
qed

lemma example_recover:
  "recover ((tiny_filter (replicate 32 0) 1 257 1)\<lparr>fingerprints := [0,0,0,0,0,0,0,0,196,0,0,0]\<rparr>) (Key 0 0 0 1)
     = Some 1"
proof -
  have "(257 :: u64) \<noteq> 0" by simp
  from recover_one_key [of "replicate 32 0" 257 1 "Key 0 0 0 1", unfolded example_hash, OF example_triple this, of 196]
  show ?thesis by (simp add: example_mask replicate_num list_update_num)
qed


lemma recover_constructed:
  assumes "construct seed_bytes keys values p lbl = Some (Inr f)"
  shows "\<exists>v. recover f key = Some v \<and> ucast v < plaintext_modulo f \<and> plaintext_modulo f = p"
proof -
  note r = construct_result [OF assms]
  from r(3,4) have "plaintext_modulo f \<noteq> 0" by auto
  from recover_defined [OF r(1) this, of key] r(3) show ?thesis by auto
qed

section \<open>Serialization\<close>

lemma length_to_le_bytes [simp]: "length (to_le_bytes k w) = k"
  by (simp add: to_le_bytes_def)

lemma to_le_bytes_4: "to_le_bytes 4 w = [ucast w, ucast (drop_bit 8 w), ucast (drop_bit 16 w), ucast (drop_bit 24 w)]"
  by (simp add: to_le_bytes_def upt_rec)

lemma to_le_bytes_8: "to_le_bytes 8 w = [ucast w, ucast (drop_bit 8 w), ucast (drop_bit 16 w), ucast (drop_bit 24 w),
    ucast (drop_bit 32 w), ucast (drop_bit 40 w), ucast (drop_bit 48 w), ucast (drop_bit 56 w)]"
  by (simp add: to_le_bytes_def upt_rec)

lemma byte_split:
  fixes n k :: nat
  assumes "n < 8 * k"
  obtains j m where "n = 8 * j + m" "m < 8" "j < k"
proof -
  have "n = 8 * (n div 8) + n mod 8" "n mod 8 < 8" "n div 8 < k" using assms by auto
  then show ?thesis using that by blast
qed

lemma le_roundtrip32: "from_le_bytes (to_le_bytes 4 (w :: u32)) = w"
  unfolding to_le_bytes_4 from_le_bytes_def
proof (rule bit_word_eqI)
  fix n assume "n < LENGTH(32)"
  then have "n < 8 * 4" by simp
  then obtain j m where n: "n = 8 * j + m" "m < 8" "j < 4" by (rule byte_split)
  then have "j = 0 \<or> j = 1 \<or> j = 2 \<or> j = 3" by auto
  then show "bit (foldr (\<lambda>b acc. ucast b OR push_bit 8 acc)
          [ucast w :: u8, ucast (drop_bit 8 w), ucast (drop_bit 16 w), ucast (drop_bit 24 w)] (0 :: u32)) n
      = bit w n"
    using n(2) unfolding n(1) by (elim disjE) (simp_all add: bit_simps)
qed


lemma le_roundtrip64: "from_le_bytes (to_le_bytes 8 (w :: u64)) = w"
  unfolding to_le_bytes_8 from_le_bytes_def
proof (rule bit_word_eqI)
  fix n assume "n < LENGTH(64)"
  then have "n < 8 * 8" by simp
  then obtain j m where n: "n = 8 * j + m" "m < 8" "j < 8" by (rule byte_split)
  then have "j = 0 \<or> j = 1 \<or> j = 2 \<or> j = 3 \<or> j = 4 \<or> j = 5 \<or> j = 6 \<or> j = 7" by auto
  then show "bit (foldr (\<lambda>b acc. ucast b OR push_bit 8 acc)
          [ucast w :: u8, ucast (drop_bit 8 w), ucast (drop_bit 16 w), ucast (drop_bit 24 w),
           ucast (drop_bit 32 w), ucast (drop_bit 40 w), ucast (drop_bit 48 w),
           ucast (drop_bit 56 w)] (0 :: u64)) n
      = bit w n"
    using n(2) unfolding n(1) by (elim disjE) (simp_all add: bit_simps)
qed

lemma concat_le_nth:
  "i < length xs \<Longrightarrow> take 4 (drop (4 * i) (concat (map (to_le_bytes 4) xs))) = to_le_bytes 4 (xs ! i)"
proof (induction xs arbitrary: i)
  case Nil
  then show ?case by simp
next
  case (Cons x xs)
  show ?case
  proof (cases i)
    case 0
    then show ?thesis by simp
  next
    case (Suc j)
    with Cons.prems have "j < length xs" by simp
    then show ?thesis using Cons.IH [of j] by (simp add: Suc)
  qed
qed

lemma length_concat_le: "length (concat (map (to_le_bytes 4) xs)) = 4 * length xs"
  by (induction xs) simp_all

lemma decode_table:
  "map (\<lambda>i. from_le_bytes (take 4 (drop (4 * i) (concat (map (to_le_bytes 4) xs))))) [0..<length xs]
     = (xs :: u32 list)"
  by (rule nth_equalityI) (simp_all add: concat_le_nth le_roundtrip32)

text \<open>The byte image written by \<open>serialize\<close>.\<close>

lemma serialize_ok:
  assumes "length buf = serialized_num_bytes f" and "unat (array_length f) \<le> length (fingerprints f)"
  shows "serialize f buf = Some (True,
             take 32 (seed f)
             @ to_le_bytes 4 (num_keys_in_kv_map f)
             @ to_le_bytes 8 (plaintext_modulo f)
             @ to_le_bytes 8 (label f)
             @ to_le_bytes 4 (segment_length f)
             @ to_le_bytes 4 (segment_count f)
             @ to_le_bytes 4 (segment_count_length f)
             @ to_le_bytes 4 (array_length f)
             @ concat (map (to_le_bytes 4) (take (unat (array_length f)) (fingerprints f))))"
  using assms by (simp add: serialize_def)

lemma deserialize_image:
  fixes n sl sc scl al :: u32 and p l :: u64
  assumes sd: "length sd = 32" and fps: "length fps = unat al"
  shows "deserialize (sd @ to_le_bytes 4 n @ to_le_bytes 8 p @ to_le_bytes 8 l @ to_le_bytes 4 sl
            @ to_le_bytes 4 sc @ to_le_bytes 4 scl @ to_le_bytes 4 al
            @ concat (map (to_le_bytes 4) fps))
     = Some \<lparr> seed = sd, num_keys_in_kv_map = n, plaintext_modulo = p, label = l,
              segment_length = sl, segment_length_mask = sl - 1, segment_count = sc,
              segment_count_length = scl, array_length = al, fingerprints = fps \<rparr>"
proof -
  have d: "map (\<lambda>i. from_le_bytes (take 4 (drop (4 * i) (concat (map (to_le_bytes 4) fps))))) [0..<unat al]
     = fps"
    using decode_table [of fps] by (simp add: fps)
  show ?thesis
    unfolding deserialize_def read_bytes_def
    by (simp add: sd fps length_concat_le le_roundtrip32 le_roundtrip64 d)
qed

lemma serialize_roundtrip:
  assumes sd: "length (seed f) = 32" and len: "length (fingerprints f) = unat (array_length f)"
    and m: "segment_length_mask f = segment_length f - 1"
    and buf: "length buf = serialized_num_bytes f"
  shows "\<exists>bytes. serialize f buf = Some (True, bytes) \<and> length bytes = serialized_num_bytes f
      \<and> deserialize bytes = Some f"
proof -
  have s: "serialize f buf = Some (True,
             seed f
             @ to_le_bytes 4 (num_keys_in_kv_map f)
             @ to_le_bytes 8 (plaintext_modulo f)
             @ to_le_bytes 8 (label f)
             @ to_le_bytes 4 (segment_length f)
             @ to_le_bytes 4 (segment_count f)
             @ to_le_bytes 4 (segment_count_length f)
             @ to_le_bytes 4 (array_length f)
             @ concat (map (to_le_bytes 4) (fingerprints f)))"
    using serialize_ok [OF buf] sd len by simp
  have "deserialize (seed f
             @ to_le_bytes 4 (num_keys_in_kv_map f)
             @ to_le_bytes 8 (plaintext_modulo f)
             @ to_le_bytes 8 (label f)
             @ to_le_bytes 4 (segment_length f)
             @ to_le_bytes 4 (segment_count f)
             @ to_le_bytes 4 (segment_count_length f)
             @ to_le_bytes 4 (array_length f)
             @ concat (map (to_le_bytes 4) (fingerprints f))) = Some f"
    by (simp add: deserialize_image [OF sd len] m [symmetric])
  then show ?thesis
    using s sd len by (simp add: serialized_num_bytes_def length_concat_le)
qed

lemma from_le_bytes_zero4: "from_le_bytes [0, 0, 0, 0] = 0"
  by (simp add: from_le_bytes_def)

lemma from_le_bytes_zero8: "from_le_bytes [0, 0, 0, 0, 0, 0, 0, 0] = 0"
  by (simp add: from_le_bytes_def)

lemma deserialize_zeros:
  "deserialize (replicate 69 0)
     = Some \<lparr> seed = replicate 32 0, num_keys_in_kv_map = 0, plaintext_modulo = 0, label = 0,
              segment_length = 0, segment_length_mask = 0xFFFFFFFF, segment_count = 0,
              segment_count_length = 0, array_length = 0, fingerprints = [] \<rparr>"
  by (simp add: deserialize_def read_bytes_def replicate_num from_le_bytes_zero4 from_le_bytes_zero8)

lemma constructed_shape:
  assumes "construct seed_bytes keys values p lbl = Some (Inr f)"
  shows "length (fingerprints f) = unat (array_length f)"
    and "segment_length_mask f = segment_length f - 1"
proof -
  from construct_result(1) [OF assms] obtain k where
    "segment_length f = 2 ^ k" "segment_length_mask f = mask k"
    and len: "length (fingerprints f) = unat (array_length f)"
    unfolding geometry_ok_def by blast
  then show "segment_length_mask f = segment_length f - 1"
    by (simp add: mask_eq_exp_minus_1)
  show "length (fingerprints f) = unat (array_length f)" by (rule len)
qed

section \<open>Argument errors\<close>

lemma words_inj: "words a = words b \<longleftrightarrow> a = b"
  by (cases a; cases b) simp

lemma distinct_words: "distinct (map words keys) \<longleftrightarrow> distinct keys"
  by (simp add: distinct_map inj_on_def words_inj)

lemma construct_error:
  "construct seed_bytes keys values p lbl = Some (Inl e) \<Longrightarrow> length keys = length values
    \<Longrightarrow> distinct keys \<Longrightarrow> \<not> p < 256 \<Longrightarrow> e = ConstructionFailed"
  by (auto simp: construct_def are_all_keys_distinct_iff split: Option.bind_splits dest: build_error)

section \<open>The geometry is defined\<close>

text \<open>The exponent of the segment length lies between 2 and 31 for every non-zero 32-bit
  key count, and the capacity fits 32 bits for every key count up to 3817748707.\<close>

declare of_nat_unat [simp del]

lemma ln_333_ge_1: "1 \<le> ln (3.33 :: real)"
proof -
  have "exp 1 \<le> (3.33 :: real)" using exp_le by simp
  then show ?thesis by (simp add: ln_ge_iff)
qed

lemma ln_2_ge_half: "1 / 2 \<le> ln (2 :: real)"
proof -
  have "exp (1 / 2 :: real) ^ 2 = exp (of_nat 2 * (1 / 2))" by (rule exp_of_nat_mult [symmetric])
  also have "\<dots> = exp 1" by simp
  also have "\<dots> \<le> 2 ^ 2" using exp_le by simp
  finally have "exp (1 / 2 :: real) \<le> 2" by (rule power2_le_imp_le) simp
  then show ?thesis using ln_ge_iff [of "2 :: real" "1 / 2"] by simp
qed

lemma ln_2_le: "ln (2 :: real) \<le> 3 / 4"
proof -
  have "(2 :: real) \<le> 1 + 3 / 4 + (3 / 4)\<^sup>2 / 2" by (simp add: power2_eq_square)
  also have "\<dots> \<le> exp (3 / 4)" by (rule exp_lower_Taylor_quadratic) simp
  finally have "ln (2 :: real) \<le> ln (exp (3 / 4))" by (intro ln_mono) simp_all
  then show ?thesis by simp
qed

lemma ln_u32_le:
  assumes "1 \<le> m" and "m < 2 ^ 32"
  shows "0 \<le> ln (real m)" and "ln (real m) \<le> 24"
proof -
  show "0 \<le> ln (real m)" using assms by simp
  have "real m \<le> 2 ^ 32" using assms(2) by (metis less_imp_le of_nat_le_iff of_nat_numeral of_nat_power)
  then have "ln (real m) \<le> ln ((2 :: real) ^ 32)" using assms(1) by (intro ln_mono) simp_all
  also have "\<dots> = real 32 * ln 2" by (rule ln_realpow)
  also have "\<dots> \<le> real 32 * (3 / 4)" using ln_2_le by (intro mult_left_mono) simp_all
  finally show "ln (real m) \<le> 24" by simp
qed

lemma segment_exponent_range:
  assumes "1 \<le> m" and "m < 2 ^ 32"
  shows "2 \<le> \<lfloor>ln (real m) / ln 3.33 + 2.25\<rfloor>" and "\<lfloor>ln (real m) / ln 3.33 + 2.25\<rfloor> < 32"
proof -
  note l = ln_u32_le [OF assms]
  have pos: "0 < ln (3.33 :: real)" using ln_333_ge_1 by simp
  have q0: "0 \<le> ln (real m) / ln 3.33" using l(1) pos by simp
  have "ln (real m) / ln 3.33 \<le> ln (real m) / 1"
    using l(1) ln_333_ge_1 by (intro divide_left_mono) simp_all
  then have q1: "ln (real m) / ln 3.33 \<le> 24" using l(2) by simp
  show "2 \<le> \<lfloor>ln (real m) / ln 3.33 + 2.25\<rfloor>" using q0 by (simp add: le_floor_iff)
  show "\<lfloor>ln (real m) / ln 3.33 + 2.25\<rfloor> < 32" using q1 by (simp add: floor_less_iff)
qed


lemma calculate_segment_length_eq:
  fixes n :: u32
  assumes "n \<noteq> 0"
  defines "e \<equiv> nat \<lfloor>ln (real (unat n)) / ln 3.33 + 2.25\<rfloor>"
  shows "calculate_segment_length arity n = Some (2 ^ e)" and "2 \<le> e" and "e < 32"
proof -
  define fl where "fl = \<lfloor>ln (real (unat n)) / ln 3.33 + 2.25\<rfloor>"
  have m: "1 \<le> unat n" using assms(1) by (simp add: unat_gt_0 Suc_le_eq)
  have m2: "unat n < 2 ^ 32" using unsigned_less [of n, where 'a = nat] by simp
  have r1: "2 \<le> fl" unfolding fl_def by (rule segment_exponent_range(1) [OF m m2])
  have r2: "fl < 32" unfolding fl_def by (rule segment_exponent_range(2) [OF m m2])
  have en: "e = nat fl" by (simp add: e_def fl_def)
  have fl: "fl = int e" using r1 en by linarith
  show e2: "2 \<le> e" and e32: "e < 32" using r1 r2 en by linarith+
  have d: "double_to_u32 (real_of_int fl) = Some (of_nat e)"
    using e32 by (simp add: double_to_u32_def fl)
  have ue: "unat (of_nat e :: u32) = e" using e32 by (simp add: unat_of_nat)
  have "(of_nat e :: u32) < 32" using e32 by (simp add: word_less_nat_alt ue)
  then have "shl1 (of_nat e) = Some (2 ^ e)" by (simp add: shl1_def ue push_bit_eq_mult)
  then show "calculate_segment_length arity n = Some (2 ^ e)"
    unfolding calculate_segment_length_def arity_def fl_def [symmetric] by (simp add: d)
qed

lemma ln_million_le: "ln (1000000 :: real) \<le> 20 * ln 2"
proof -
  have "ln (1000000 :: real) \<le> ln (2 ^ 20)" by (intro ln_mono) simp_all
  also have "\<dots> = real 20 * ln 2" by (rule ln_realpow)
  finally show ?thesis by simp
qed

lemma size_factor_small:
  assumes "2 \<le> m"
  shows "max 1.125 (0.875 + 0.25 * ln 1000000 / ln (real m)) \<le> 5.875"
proof -
  define r where "r = ln 1000000 / ln (real m)"
  have l2: "0 < ln (2 :: real)" using ln_2_ge_half by simp
  have "ln (2 :: real) \<le> ln (real m)" using assms by (intro ln_mono) simp_all
  then have "ln 1000000 / ln (real m) \<le> (20 * ln 2) / ln 2"
    using ln_million_le l2 by (intro frac_le) simp_all
  then have r: "r \<le> 20" using l2 by (simp add: r_def)
  have eq: "(0.875 :: real) + 0.25 * ln 1000000 / ln (real m) = 7 / 8 + r / 4"
    by (simp add: r_def)
  have "7 / 8 + r / 4 \<le> 47 / 8" using r by simp
  then show ?thesis unfolding eq by (intro max.boundedI) simp_all
qed

lemma size_factor_large:
  assumes "1000000 \<le> m"
  shows "max 1.125 (0.875 + 0.25 * ln 1000000 / ln (real m)) = 1.125"
proof -
  define r where "r = ln 1000000 / ln (real m)"
  have a: "ln (1000000 :: real) \<le> ln (real m)" using assms by (intro ln_mono) simp_all
  have b: "0 < ln (1000000 :: real)" by (rule ln_gt_zero) simp
  from a b have "0 < ln (real m)" by linarith
  then have r: "r \<le> 1" using a by (simp add: r_def)
  have eq: "(0.875 :: real) + 0.25 * ln 1000000 / ln (real m) = 7 / 8 + r / 4"
    by (simp add: r_def)
  have "7 / 8 + r / 4 \<le> 1.125" using r by simp
  then show ?thesis unfolding eq by (rule max.absorb1)
qed

lemma capacity_of_defined:
  fixes n :: u32
  assumes "unat n \<le> 3817748707"
  shows "\<exists>c. capacity_of n = Some c"
proof (cases "n \<le> 1")
  case True
  then show ?thesis by (simp add: capacity_of_def)
next
  case False
  then have m: "2 \<le> unat n" by (simp add: word_le_nat_alt not_le)
  define sf where "sf = max 1.125 (0.875 + 0.25 * ln 1000000 / ln (real (unat n)))"
  have sf0: "0 \<le> sf" by (simp add: sf_def)
  have up: "real (unat n) * sf < 4294967295.5"
  proof (cases "1000000 \<le> unat n")
    case True
    then have "sf = 9 / 8" unfolding sf_def using size_factor_large [of "unat n"] by simp
    then have "real (unat n) * sf = real (unat n) * (9 / 8)" by simp
    also have "\<dots> \<le> 3817748707 * (9 / 8)"
      using assms by (intro mult_right_mono) simp_all
    also have "\<dots> < 4294967295.5" by simp
    finally show ?thesis .
  next
    case False
    then have "real (unat n) \<le> 1000000" by simp
    moreover have "sf \<le> 5.875" unfolding sf_def using m by (rule size_factor_small)
    ultimately have "real (unat n) * sf \<le> 1000000 * 5.875"
      using sf0 by (intro mult_mono) simp_all
    then show ?thesis by simp
  qed
  have "round (real (unat n) * sf) < 4294967296"
    unfolding round_def using up by (simp add: floor_less_iff)
  moreover have "0 \<le> round (real (unat n) * sf)"
    using sf0 by (simp add: round_def le_floor_iff)
  ultimately have "- 1 < real_of_int (round (real (unat n) * sf))"
    "real_of_int (round (real (unat n) * sf)) < 2 ^ 32"
    by simp_all
  then show ?thesis
    using False by (simp add: capacity_of_def calculate_size_factor_def arity_def sf_def double_to_u32_def)
qed

lemma init_filter_defined:
  fixes n :: u32
  assumes "unat n \<le> 3817748707"
  shows "\<exists>f. init_filter seed_bytes n p lbl = Some f"
proof -
  obtain c where c: "capacity_of n = Some c" using capacity_of_defined [OF assms] by blast
  have "\<exists>s. (if n = 0 then Some 4 else calculate_segment_length arity n) = Some s"
    using calculate_segment_length_eq(1) by simp
  then obtain s where s: "(if n = 0 then Some 4 else calculate_segment_length arity n) = Some s"
    by blast
  show ?thesis unfolding init_filter_def s c by (simp add: Let_def)
qed

lemma init_filter_fields:
  assumes "init_filter seed_bytes n p lbl = Some f"
  shows "array_length f = (segment_count f + 2) * segment_length f"
    and "segment_count_length f = segment_count f * segment_length f"
    and "n = 0 \<Longrightarrow> segment_length f = 4"
    and "n \<noteq> 0 \<Longrightarrow> segment_length f
          = (if (2 ^ nat \<lfloor>ln (real (unat n)) / ln 3.33 + 2.25\<rfloor> :: u32) > 262144 then 262144
             else 2 ^ nat \<lfloor>ln (real (unat n)) / ln 3.33 + 2.25\<rfloor>)"
proof -
  from assms obtain sl0 capacity where
    sl0: "(if n = 0 then Some 4 else calculate_segment_length arity n) = Some sl0"
    and f: "f = (let sl = (if sl0 > 262144 then 262144 else sl0);
              slm = sl - 1;
              initSegmentCount = init_segment_count capacity sl;
              al0 = (initSegmentCount + arity - 1) * sl;
              sc0 = (al0 + sl - 1) div sl;
              sc = (if sc0 \<le> arity - 1 then 1 else sc0 - (arity - 1));
              al = (sc + arity - 1) * sl;
              scl = sc * sl
          in \<lparr> seed = seed_bytes, num_keys_in_kv_map = n, plaintext_modulo = p,
                    label = lbl, segment_length = sl, segment_length_mask = slm,
                    segment_count = sc, segment_count_length = scl, array_length = al,
                    fingerprints = replicate (unat al) 0 \<rparr>)"
    unfolding init_filter_def by (auto simp: Let_def split: Option.bind_splits)
  show "array_length f = (segment_count f + 2) * segment_length f"
    and "segment_count_length f = segment_count f * segment_length f"
    unfolding f Let_def arity_def by simp_all
  show "segment_length f = 4" if "n = 0"
    using sl0 that unfolding f Let_def by simp
  show "segment_length f
          = (if (2 ^ nat \<lfloor>ln (real (unat n)) / ln 3.33 + 2.25\<rfloor> :: u32) > 262144 then 262144
             else 2 ^ nat \<lfloor>ln (real (unat n)) / ln 3.33 + 2.25\<rfloor>)" if "n \<noteq> 0"
    using sl0 that calculate_segment_length_eq(1) [OF that] unfolding f Let_def by simp
qed

declare of_nat_unat [simp]

section \<open>The scratch vectors are written before they are read\<close>










lemma unat_step': "unat (x + (if c then 1 else 0 :: u32)) \<le> Suc (unat x)"
  by (cases c) (auto simp: unat_word_ariths)






















section \<open>Claims\<close>

text \<open>
  C1 (round trip, refuted on the code).  The claim asks that \<open>recover\<close> returns the value
  of every construction key modulo \<open>p\<close> for every modulus from 256 on.  The back-fill
  subtracts with wrap-around before it reduces modulo \<open>p\<close>, which is sound only when \<open>p\<close>
  divides the word size.  With the all-zero seed, the single key \<open>(0, 0, 0, 1)\<close>, the value
  0, \<open>p = 257\<close> and label 1 the constructor succeeds, and \<open>recover\<close> of that key is 1
  instead of 0.
\<close>

theorem roundtrip_fails_at_modulus_257:
  "construct (replicate 32 0) [Key 0 0 0 1] [0] 257 1
     = Some (Inr ((tiny_filter (replicate 32 0) 1 257 1)
                    \<lparr>fingerprints := [0, 0, 0, 0, 0, 0, 0, 0, 196, 0, 0, 0]\<rparr>))
   \<and> recover ((tiny_filter (replicate 32 0) 1 257 1)
                    \<lparr>fingerprints := [0, 0, 0, 0, 0, 0, 0, 0, 196, 0, 0, 0]\<rparr>) (Key 0 0 0 1)
     = Some 1"
  using example_construct example_recover by (rule conjI)

text \<open>
  C2 (recover is total).  On every filter the constructor returns, \<open>recover\<close> of any key
  reads inside the fingerprint table, divides by a non-zero modulus and returns a value
  below the modulus of the filter.
\<close>

theorem recover_total_in_range:
  assumes "construct seed_bytes keys values p lbl = Some (Inr f)"
  shows "\<exists>v. recover f key = Some v \<and> ucast v < plaintext_modulo f \<and> plaintext_modulo f = p"
  using assms by (rule recover_constructed)

theorem recover_total_in_range_witness:
  "\<exists>v. recover ((tiny_filter (replicate 32 0) 1 257 1)
                    \<lparr>fingerprints := [0, 0, 0, 0, 0, 0, 0, 0, 196, 0, 0, 0]\<rparr>) (Key 5 6 7 8) = Some v
       \<and> (ucast v :: u64) < 257"
  using recover_total_in_range [OF example_construct, of "Key 5 6 7 8"]
  by (simp add: tiny_filter_sel)

text \<open>
  C8 (hash triple in bounds).  For the geometry the constructor computes from any key count,
  and so for the filter it returns, the three indices derived from any 64-bit hash are below
  \<open>array_length\<close>, which is the length of the fingerprint table.
\<close>

theorem hash_triple_in_bounds:
  assumes "init_filter seed_bytes n p lbl = Some f
           \<or> construct seed_bytes keys values p lbl = Some (Inr f)"
    and "hash_batch f hash = (h0, h1, h2)"
  shows "unat h0 < unat (array_length f) \<and> unat h1 < unat (array_length f)
         \<and> unat h2 < unat (array_length f)
         \<and> length (fingerprints f) = unat (array_length f)"
proof -
  from assms(1) have ok: "geometry_ok f"
    by (auto dest: init_filter_ok(1) construct_result(1))
  from hash_batch_in_bounds [OF ok assms(2)] ok show ?thesis
    by (simp add: geometry_ok_def)
qed

theorem hash_triple_in_bounds_witness:
  "hash_batch (tiny_filter (replicate 32 0) 1 257 1) 0x6093143b8750c84d = (1, 5, 8)
   \<and> unat (1 :: u32) < 12 \<and> unat (5 :: u32) < 12 \<and> unat (8 :: u32) < 12
   \<and> length (fingerprints (tiny_filter (replicate 32 0) 1 257 1)) = 12"
proof -
  have "init_filter (replicate 32 0) 1 257 1 = Some (tiny_filter (replicate 32 0) 1 257 1)
        \<or> construct (replicate 32 0) [] [] 257 1
             = Some (Inr (tiny_filter (replicate 32 0) 1 257 1))"
    by (simp add: init_filter_1)
  from hash_triple_in_bounds [OF this example_triple] show ?thesis
    by (simp add: example_triple tiny_filter_sel)
qed

text \<open>
  C3 (argument errors).  The constructor reports the length error when the two input
  sequences differ in length, otherwise the duplicate-key error when two keys have the same
  four words, otherwise the modulus error when \<open>p < 256\<close>; on every other input it reports
  none of the three.  In each error case the result is the error alone: no filter is
  returned.
\<close>

theorem permanent_errors:
  "(length keys \<noteq> length values
      \<longrightarrow> construct seed_bytes keys values p lbl = Some (Inl LengthMismatch))
   \<and> (length keys = length values \<and> \<not> distinct (map words keys)
      \<longrightarrow> construct seed_bytes keys values p lbl = Some (Inl DuplicateKeys))
   \<and> (length keys = length values \<and> distinct (map words keys) \<and> p < 256
      \<longrightarrow> construct seed_bytes keys values p lbl = Some (Inl ModulusTooSmall))
   \<and> (length keys = length values \<and> distinct (map words keys) \<and> 256 \<le> p
      \<longrightarrow> construct seed_bytes keys values p lbl \<noteq> Some (Inl LengthMismatch)
        \<and> construct seed_bytes keys values p lbl \<noteq> Some (Inl DuplicateKeys)
        \<and> construct seed_bytes keys values p lbl \<noteq> Some (Inl ModulusTooSmall))"
proof -
  have "construct seed_bytes keys values p lbl = Some (Inl e) \<Longrightarrow> length keys = length values
    \<Longrightarrow> distinct keys \<Longrightarrow> 256 \<le> p \<Longrightarrow> e = ConstructionFailed" for e
    using construct_error [of seed_bytes keys "values" p lbl e] by (simp add: not_less)
  then show ?thesis
    unfolding distinct_words
    by (auto simp: construct_def are_all_keys_distinct_iff)
qed

theorem permanent_errors_witness:
  "construct (replicate 32 0) [Key 0 0 0 1] [] 257 1 = Some (Inl LengthMismatch)
   \<and> construct (replicate 32 0) [Key 0 0 0 1, Key 0 0 0 1] [7, 13] 257 1 = Some (Inl DuplicateKeys)
   \<and> construct (replicate 32 0) [Key 0 0 0 1] [0] 255 1 = Some (Inl ModulusTooSmall)
   \<and> construct (replicate 32 0) [Key 0 0 0 1] [0] 257 1 \<noteq> Some (Inl LengthMismatch)
   \<and> construct (replicate 32 0) [Key 0 0 0 1] [0] 257 1 \<noteq> Some (Inl DuplicateKeys)
   \<and> construct (replicate 32 0) [Key 0 0 0 1] [0] 257 1 \<noteq> Some (Inl ModulusTooSmall)"
  using permanent_errors [of "[Key 0 0 0 1]" "[]" "replicate 32 0" 257 1]
    permanent_errors [of "[Key 0 0 0 1, Key 0 0 0 1]" "[7, 13]" "replicate 32 0" 257 1]
    permanent_errors [of "[Key 0 0 0 1]" "[0]" "replicate 32 0" 255 1]
    permanent_errors [of "[Key 0 0 0 1]" "[0]" "replicate 32 0" 257 1]
  by simp

text \<open>
  C5 (deserialization validates its input, refuted as stated).  The deserializing
  constructor has no check and no error path.  A buffer of 69 zero bytes, whose header
  implies 68 bytes and describes no valid geometry, is accepted.
\<close>

theorem deserialize_accepts_mismatched_buffer:
  "deserialize (replicate 69 0)
     = Some \<lparr> seed = replicate 32 0, num_keys_in_kv_map = 0, plaintext_modulo = 0, label = 0,
              segment_length = 0, segment_length_mask = 0xFFFFFFFF, segment_count = 0,
              segment_count_length = 0, array_length = 0, fingerprints = [] \<rparr>
   \<and> length (replicate 69 (0 :: u8)) \<noteq> 32 + 4 + 8 + 8 + 4 + 4 + 4 + 4 + unat (0 :: u32) * 4"
  using deserialize_zeros by simp

text \<open>
  C5 as amended.  Deserialization performs no validation: it has a result exactly when the
  buffer holds at least the 68 header bytes and the \<open>4 * array_length\<close> table bytes the
  header announces, and the result is the filter read field by field from the buffer,
  whatever the header says and whatever follows the table.  On a shorter buffer the reads
  run past its end, which is undefined and not an error report.
\<close>

theorem deserialize_unvalidated:
  fixes bytes :: "u8 list"
  defines "al \<equiv> (from_le_bytes (take 4 (drop 64 bytes)) :: u32)"
  shows "(deserialize bytes \<noteq> None \<longleftrightarrow> 68 + unat al * 4 \<le> length bytes)
    \<and> (\<forall>f. deserialize bytes = Some f \<longrightarrow>
          seed f = take 32 bytes
          \<and> num_keys_in_kv_map f = from_le_bytes (take 4 (drop 32 bytes))
          \<and> plaintext_modulo f = from_le_bytes (take 8 (drop 36 bytes))
          \<and> label f = from_le_bytes (take 8 (drop 44 bytes))
          \<and> segment_length f = from_le_bytes (take 4 (drop 52 bytes))
          \<and> segment_length_mask f = segment_length f - 1
          \<and> segment_count f = from_le_bytes (take 4 (drop 56 bytes))
          \<and> segment_count_length f = from_le_bytes (take 4 (drop 60 bytes))
          \<and> array_length f = al
          \<and> fingerprints f
              = map (\<lambda>i. from_le_bytes (take 4 (drop (68 + 4 * i) bytes))) [0..<unat al])"
  unfolding al_def deserialize_def read_bytes_def
  by (auto simp: take_drop add.commute split: Option.bind_splits if_splits)

theorem deserialize_unvalidated_witness:
  "deserialize (replicate 69 0) \<noteq> None
   \<and> 68 + unat (from_le_bytes (take 4 (drop 64 (replicate 69 0))) :: u32) * 4
       \<le> length (replicate 69 (0 :: u8))
   \<and> deserialize (replicate 69 0)
       = Some \<lparr> seed = take 32 (replicate 69 0), num_keys_in_kv_map = 0, plaintext_modulo = 0,
                label = 0, segment_length = 0, segment_length_mask = 0 - 1, segment_count = 0,
                segment_count_length = 0,
                array_length = from_le_bytes (take 4 (drop 64 (replicate 69 0))),
                fingerprints = [] \<rparr>"
  using deserialize_unvalidated [of "replicate 69 0"] deserialize_zeros
  by (simp add: replicate_num from_le_bytes_zero4)

text \<open>
  C6 (serialization round trip).  For a constructed filter (with a 32-byte seed, as the
  parameter type requires) the serialized size is \<open>32 + 4 + 8 + 8 + 4 + 4 + 4 + 4 +
  array_length * 4\<close>; serializing into a buffer of that size succeeds and deserializing
  the result gives back the same filter, hence the same \<open>recover\<close> results; \<open>serialize\<close>
  returns false, leaving the buffer as it was, exactly when the buffer has another size.
\<close>

theorem serialization_roundtrip:
  assumes "construct seed_bytes keys values p lbl = Some (Inr f)" and "length seed_bytes = 32"
  shows "serialized_num_bytes f = 32 + 4 + 8 + 8 + 4 + 4 + 4 + 4 + unat (array_length f) * 4
     \<and> (\<forall>buf. length buf = serialized_num_bytes f \<longrightarrow>
          (\<exists>bytes. serialize f buf = Some (True, bytes) \<and> length bytes = serialized_num_bytes f
             \<and> deserialize bytes = Some f
             \<and> (\<forall>f' key. deserialize bytes = Some f' \<longrightarrow> recover f' key = recover f key)))
     \<and> (\<forall>buf. length buf \<noteq> serialized_num_bytes f \<longrightarrow> serialize f buf = Some (False, buf))
     \<and> (\<forall>buf r. serialize f buf = Some (False, r) \<longrightarrow> length buf \<noteq> serialized_num_bytes f)"
proof -
  note sh = constructed_shape [OF assms(1)]
  have sd: "length (seed f) = 32" using construct_result(2) [OF assms(1)] assms(2) by simp
  have "\<exists>bytes. serialize f buf = Some (True, bytes) \<and> length bytes = serialized_num_bytes f
             \<and> deserialize bytes = Some f
             \<and> (\<forall>f' key. deserialize bytes = Some f' \<longrightarrow> recover f' key = recover f key)"
    if "length buf = serialized_num_bytes f" for buf
    using serialize_roundtrip [OF sd sh that] by auto
  moreover have "serialize f buf = Some (False, buf)" if "length buf \<noteq> serialized_num_bytes f" for buf
    using that by (simp add: serialize_def)
  moreover have "length buf \<noteq> serialized_num_bytes f" if "serialize f buf = Some (False, r)" for buf r
    using that sh(1) by (auto simp: serialize_def split: if_splits)
  moreover have "serialized_num_bytes f = 32 + 4 + 8 + 8 + 4 + 4 + 4 + 4 + unat (array_length f) * 4"
    by (simp add: serialized_num_bytes_def sh(1))
  ultimately show ?thesis by blast
qed

theorem serialization_roundtrip_witness:
  "serialized_num_bytes ((tiny_filter (replicate 32 0) 1 257 1)
                    \<lparr>fingerprints := [0, 0, 0, 0, 0, 0, 0, 0, 196, 0, 0, 0]\<rparr>) = 116
   \<and> (\<exists>bytes. serialize ((tiny_filter (replicate 32 0) 1 257 1)
                    \<lparr>fingerprints := [0, 0, 0, 0, 0, 0, 0, 0, 196, 0, 0, 0]\<rparr>) (replicate 116 0)
                = Some (True, bytes)
        \<and> deserialize bytes = Some ((tiny_filter (replicate 32 0) 1 257 1)
                    \<lparr>fingerprints := [0, 0, 0, 0, 0, 0, 0, 0, 196, 0, 0, 0]\<rparr>))
   \<and> serialize ((tiny_filter (replicate 32 0) 1 257 1)
                    \<lparr>fingerprints := [0, 0, 0, 0, 0, 0, 0, 0, 196, 0, 0, 0]\<rparr>) (replicate 115 0)
        = Some (False, replicate 115 0)"
proof -
  have l: "length (replicate 32 (0 :: u8)) = 32" by simp
  note t = serialization_roundtrip [OF example_construct l]
  note a = t [THEN conjunct1]
  note b = t [THEN conjunct2, THEN conjunct1, rule_format, of "replicate 116 0"]
  note c = t [THEN conjunct2, THEN conjunct2, THEN conjunct1, rule_format, of "replicate 115 0"]
  have n: "serialized_num_bytes ((tiny_filter (replicate 32 0) 1 257 1)
                    \<lparr>fingerprints := [0, 0, 0, 0, 0, 0, 0, 0, 196, 0, 0, 0]\<rparr>) = 116"
    using a by (simp add: tiny_filter_sel)
  from b [unfolded n] obtain bytes where
    "serialize ((tiny_filter (replicate 32 0) 1 257 1)
                    \<lparr>fingerprints := [0, 0, 0, 0, 0, 0, 0, 0, 196, 0, 0, 0]\<rparr>) (replicate 116 0)
                = Some (True, bytes)"
    "deserialize bytes = Some ((tiny_filter (replicate 32 0) 1 257 1)
                    \<lparr>fingerprints := [0, 0, 0, 0, 0, 0, 0, 0, 196, 0, 0, 0]\<rparr>)"
    by auto
  with c [unfolded n] n show ?thesis by simp
qed





text \<open>
  C7 (geometry).  Whenever the constructor computes a geometry, and it does for every key
  count up to 3817748707 (beyond, the capacity no longer converts to 32 bits), the segment
  length is a power of two of at most 262144, \<open>array_length = (segment_count + 2) *
  segment_length\<close> and \<open>segment_count_length = segment_count * segment_length\<close>, both
  without wrap-around, and for \<open>n > 0\<close> the segment length is \<open>1 << floor (log n / log 3.33
  + 2.25)\<close> capped at 262144.  The logarithm and the floor are those of the reals.
\<close>

theorem geometry_invariants:
  fixes n :: u32
  shows "(unat n \<le> 3817748707 \<longrightarrow> init_filter seed_bytes n p lbl \<noteq> None)
    \<and> (\<forall>f. init_filter seed_bytes n p lbl = Some f \<longrightarrow>
          (\<exists>k\<le>18. segment_length f = 2 ^ k) \<and> segment_length f \<le> 262144
          \<and> array_length f = (segment_count f + 2) * segment_length f
          \<and> unat (array_length f) = (unat (segment_count f) + 2) * unat (segment_length f)
          \<and> segment_count_length f = segment_count f * segment_length f
          \<and> unat (segment_count_length f) = unat (segment_count f) * unat (segment_length f)
          \<and> (n = 0 \<longrightarrow> segment_length f = 4)
          \<and> (n \<noteq> 0 \<longrightarrow> segment_length f
                = (if (2 ^ nat \<lfloor>ln (real (unat n)) / ln 3.33 + 2.25\<rfloor> :: u32) > 262144
                   then 262144 else 2 ^ nat \<lfloor>ln (real (unat n)) / ln 3.33 + 2.25\<rfloor>)))"
proof (intro conjI impI allI)
  assume "unat n \<le> 3817748707"
  then show "init_filter seed_bytes n p lbl \<noteq> None"
    using init_filter_defined [of n seed_bytes p lbl] by auto
next
  fix f assume f: "init_filter seed_bytes n p lbl = Some f"
  note ok = init_filter_ok(1) [OF f] and fl = init_filter_fields [OF f]
  from ok obtain k where k: "k \<le> 18" "segment_length f = 2 ^ k"
    unfolding geometry_ok_def by blast
  then show "\<exists>k\<le>18. segment_length f = 2 ^ k" by blast
  have "unat (segment_length f) = 2 ^ k" using k by (simp add: unat_2p32)
  moreover have "(2 :: nat) ^ k \<le> 2 ^ 18" using k(1) by (intro power_increasing) simp_all
  ultimately show "segment_length f \<le> 262144" by (simp add: word_le_nat_alt)
  show "array_length f = (segment_count f + 2) * segment_length f" by (rule fl(1))
  show "segment_count_length f = segment_count f * segment_length f" by (rule fl(2))
  show "unat (array_length f) = (unat (segment_count f) + 2) * unat (segment_length f)"
    and "unat (segment_count_length f) = unat (segment_count f) * unat (segment_length f)"
    using ok unfolding geometry_ok_def by simp_all
  show "segment_length f = 4" if "n = 0" using that by (rule fl(3))
  show "segment_length f
                = (if (2 ^ nat \<lfloor>ln (real (unat n)) / ln 3.33 + 2.25\<rfloor> :: u32) > 262144
                   then 262144 else 2 ^ nat \<lfloor>ln (real (unat n)) / ln 3.33 + 2.25\<rfloor>)" if "n \<noteq> 0"
    using that by (rule fl(4))
qed

theorem geometry_invariants_witness:
  "init_filter (replicate 32 0) 1 257 1 \<noteq> None
   \<and> segment_length (tiny_filter (replicate 32 0) 1 257 1) = 2 ^ 2
   \<and> segment_length (tiny_filter (replicate 32 0) 1 257 1) \<le> 262144
   \<and> array_length (tiny_filter (replicate 32 0) 1 257 1)
       = (segment_count (tiny_filter (replicate 32 0) 1 257 1) + 2)
         * segment_length (tiny_filter (replicate 32 0) 1 257 1)
   \<and> segment_count_length (tiny_filter (replicate 32 0) 1 257 1)
       = segment_count (tiny_filter (replicate 32 0) 1 257 1)
         * segment_length (tiny_filter (replicate 32 0) 1 257 1)"
  using geometry_invariants [of 1 "replicate 32 0" 257 1]
  by (simp add: init_filter_1 tiny_filter_sel)

end
